theory Spec2Isabelle
  imports Main
begin

section \<open>Strings and values of the host language\<close>

text \<open>
  A string of the program is a sequence of UTF-16 code units; a code unit is modelled as a
  natural number (below 65536 for every real string). \<open>js\<close> turns a literal into such a
  sequence, so that the inputs of the theorems can be read.
\<close>

type_synonym cu = nat
type_synonym jsstring = "cu list"

definition js :: "string \<Rightarrow> jsstring" where
  "js s = map of_char s"

text \<open>White space and line terminators, as \<open>String.prototype.trim\<close> and the class \<open>\s\<close> see them.\<close>

definition is_line_terminator :: "cu \<Rightarrow> bool" where
  "is_line_terminator c \<longleftrightarrow> c = 10 \<or> c = 13 \<or> c = 8232 \<or> c = 8233"

definition is_space :: "cu \<Rightarrow> bool" where
  "is_space c \<longleftrightarrow>
     c = 9 \<or> c = 10 \<or> c = 11 \<or> c = 12 \<or> c = 13 \<or> c = 32 \<or> c = 160 \<or> c = 5760 \<or>
     (8192 \<le> c \<and> c \<le> 8202) \<or> c = 8232 \<or> c = 8233 \<or> c = 8239 \<or> c = 8287 \<or>
     c = 12288 \<or> c = 65279"

definition is_digit :: "cu \<Rightarrow> bool" where
  "is_digit c \<longleftrightarrow> 48 \<le> c \<and> c \<le> 57"

definition is_word :: "cu \<Rightarrow> bool" where
  "is_word c \<longleftrightarrow> (97 \<le> c \<and> c \<le> 122) \<or> (65 \<le> c \<and> c \<le> 90) \<or> is_digit c \<or> c = 95"

definition js_trim :: "jsstring \<Rightarrow> jsstring" where
  "js_trim s = rev (dropWhile is_space (rev (dropWhile is_space s)))"

text \<open>
  A value that is a string or \<open>undefined\<close>: \<open>headText[0]\<close> is \<open>undefined\<close> when
  \<open>headText\<close> is empty, and the tokenizer stores it and concatenates it.
\<close>

datatype jsval = Undefined | Str jsstring

fun to_string :: "jsval \<Rightarrow> jsstring" where
  "to_string Undefined = js ''undefined''"
| "to_string (Str s) = s"

text \<open>\<open>a + b\<close> where \<open>a\<close> is a string: \<open>b\<close> is converted to a string.\<close>

definition str_plus :: "jsstring \<Rightarrow> jsval \<Rightarrow> jsstring" where
  "str_plus a b = a @ to_string b"

text \<open>\<open>v ?? ''\<close>\<close>

fun or_empty :: "jsval \<Rightarrow> jsstring" where
  "or_empty Undefined = []"
| "or_empty (Str s) = s"

text \<open>\<open>s[0]\<close>\<close>

fun char_at0 :: "jsstring \<Rightarrow> jsval" where
  "char_at0 [] = Undefined"
| "char_at0 (c # _) = Str [c]"

datatype jserror =
    TypeError
  | InvalidBlock
  | NoMatchingBlock jsstring
  | InvalidHeadingBlock
  | InvalidQuoteBlock
  | InvalidListItem
  | InvalidImageBlock
  | InvalidCodeBlock

section \<open>Regular expressions\<close>

text \<open>
  The patterns of the program, as syntax trees, and the backtracking matcher of the
  language: \<open>rx r x\<close> lists the states in which a match of \<open>r\<close> started in state \<open>x\<close> can
  end, in the order in which backtracking tries them. A state is the end index, the text
  that remains and the captures.
\<close>

datatype cset = CAny | CDot | CSpace | CDigit | CWord | COneOf "cu list"

fun in_cset :: "cset \<Rightarrow> cu \<Rightarrow> bool" where
  "in_cset CAny c = True"
| "in_cset CDot c = (\<not> is_line_terminator c)"
| "in_cset CSpace c = is_space c"
| "in_cset CDigit c = is_digit c"
| "in_cset CWord c = is_word c"
| "in_cset (COneOf cs) c = (c \<in> set cs)"

datatype regex =
    Eps
  | Chr cu
  | Cls cset
  | Seq regex regex
  | Alt regex regex
  | Rep bool nat "nat option" regex
  | Grp nat regex
  | Bol
  | Eol

text \<open>
  The captures are the pairs of a group number and its text, the latest first; a group
  without a pair is \<open>undefined\<close>.
\<close>

type_synonym captures = "(nat \<times> jsstring) list"
type_synonym mstate = "nat \<times> jsstring \<times> captures"

fun groups :: "regex \<Rightarrow> nat list" where
  "groups (Seq a b) = groups a @ groups b"
| "groups (Alt a b) = groups a @ groups b"
| "groups (Rep g mn mx a) = groups a"
| "groups (Grp n a) = n # groups a"
| "groups _ = []"

definition clear :: "nat list \<Rightarrow> mstate \<Rightarrow> mstate" where
  "clear gs x = (case x of (i, r, cp) \<Rightarrow> (i, r, filter (\<lambda>kv. fst kv \<notin> set gs) cp))"

definition rest_of :: "mstate \<Rightarrow> jsstring" where
  "rest_of x = fst (snd x)"

text \<open>
  The quantifier (RepeatMatcher of the language definition): \<open>mn\<close> iterations are required,
  \<open>mx\<close> allowed (\<open>None\<close> is no bound); the captures of the groups inside the atom are cleared
  before each iteration; once the minimum is reached an iteration that consumes nothing is
  rejected. A greedy quantifier tries one more iteration before stopping, a lazy one stops
  first.
\<close>

function rep :: "(mstate \<Rightarrow> mstate list) \<Rightarrow> nat list \<Rightarrow> bool \<Rightarrow> nat \<Rightarrow> nat option \<Rightarrow> mstate
    \<Rightarrow> mstate list" where
  "rep m gs greedy mn mx x =
     (if mx = Some 0 then [x]
      else if mn \<noteq> 0 then
        concat (map (\<lambda>y. rep m gs greedy (mn - 1) (map_option (\<lambda>k. k - 1) mx) y) (m (clear gs x)))
      else
        (let again = concat (map (\<lambda>y. if length (rest_of x) \<le> length (rest_of y) then []
                                        else rep m gs greedy 0 (map_option (\<lambda>k. k - 1) mx) y)
                                  (m (clear gs x)))
         in if greedy then again @ [x] else x # again))"
  by pat_completeness auto
termination
  by (relation "measures [(\<lambda>(m, gs, greedy, mn, mx, x). mn),
                          (\<lambda>(m, gs, greedy, mn, mx, x). length (rest_of x))]") auto

declare rep.simps [simp del]

primrec rx :: "regex \<Rightarrow> mstate \<Rightarrow> mstate list" where
  "rx Eps x = [x]"
| "rx (Chr c) x =
     (case x of (i, r, cp) \<Rightarrow>
        (case r of [] \<Rightarrow> [] | d # r' \<Rightarrow> if d = c then [(Suc i, r', cp)] else []))"
| "rx (Cls s) x =
     (case x of (i, r, cp) \<Rightarrow>
        (case r of [] \<Rightarrow> [] | d # r' \<Rightarrow> if in_cset s d then [(Suc i, r', cp)] else []))"
| "rx (Seq a b) x = concat (map (rx b) (rx a x))"
| "rx (Alt a b) x = rx a x @ rx b x"
| "rx (Rep greedy mn mx a) x = rep (rx a) (groups a) greedy mn mx x"
| "rx (Grp n a) x =
     map (\<lambda>y. case y of (j, r', cp') \<Rightarrow>
            (j, r', (n, take (length (rest_of x) - length r') (rest_of x)) # cp'))
         (rx a x)"
| "rx Bol x = (if fst x = 0 then [x] else [])"
| "rx Eol x = (if rest_of x = [] then [x] else [])"

fun cat :: "regex list \<Rightarrow> regex" where
  "cat [] = Eps"
| "cat [r] = r"
| "cat (r # rs) = Seq r (cat rs)"

abbreviation rx_star :: "regex \<Rightarrow> regex" where "rx_star r \<equiv> Rep True 0 None r"
abbreviation rx_plus :: "regex \<Rightarrow> regex" where "rx_plus r \<equiv> Rep True 1 None r"
abbreviation rx_opt :: "regex \<Rightarrow> regex" where "rx_opt r \<equiv> Rep True 0 (Some 1) r"
abbreviation rx_lazy_star :: "regex \<Rightarrow> regex" where "rx_lazy_star r \<equiv> Rep False 0 None r"
abbreviation rx_lazy_plus :: "regex \<Rightarrow> regex" where "rx_lazy_plus r \<equiv> Rep False 1 None r"

text \<open>
  A match: the index where it starts, the matched text (\<open>match[0]\<close>) and the captures
  (\<open>match[n]\<close>, \<open>None\<close> for \<open>undefined\<close>).
\<close>

record rmatch =
  m_index :: nat
  m_text :: jsstring
  m_captures :: captures

definition m_group :: "rmatch \<Rightarrow> nat \<Rightarrow> jsstring option" where
  "m_group m n = map_of (m_captures m) n"

definition match_at :: "regex \<Rightarrow> nat \<Rightarrow> jsstring \<Rightarrow> rmatch option" where
  "match_at re i r =
     (case rx re (i, r, []) of
        [] \<Rightarrow> None
      | y # _ \<Rightarrow> Some \<lparr>m_index = i, m_text = take (length r - length (rest_of y)) r,
                        m_captures = snd (snd y)\<rparr>)"

text \<open>The search of \<open>exec\<close> for a pattern without the global flag: the leftmost start wins.\<close>

fun search :: "regex \<Rightarrow> nat \<Rightarrow> jsstring \<Rightarrow> rmatch option" where
  "search re i [] = match_at re i []"
| "search re i (c # r) =
     (case match_at re i (c # r) of Some m \<Rightarrow> Some m | None \<Rightarrow> search re (Suc i) r)"

definition regexp_exec :: "regex \<Rightarrow> jsstring \<Rightarrow> rmatch option" where
  "regexp_exec re s = search re 0 s"

definition regexp_test :: "regex \<Rightarrow> jsstring \<Rightarrow> bool" where
  "regexp_test re s = (regexp_exec re s \<noteq> None)"

text \<open>\<open>match[n]\<close> read as a string where the code does so.\<close>

definition group :: "rmatch \<Rightarrow> nat \<Rightarrow> jsval" where
  "group m n = (case m_group m n of None \<Rightarrow> Undefined | Some s \<Rightarrow> Str s)"

subsection \<open>What every match consumes\<close>

text \<open>
  A lower bound on the length of every match of a pattern, and the fact that the matcher
  only moves forward: a state reached from \<open>x\<close> has consumed a prefix \<open>w\<close> of the text that
  remained in \<open>x\<close>, at least \<open>k\<close> code units long.
\<close>

fun minlen :: "regex \<Rightarrow> nat" where
  "minlen (Chr c) = 1"
| "minlen (Cls s) = 1"
| "minlen (Seq a b) = minlen a + minlen b"
| "minlen (Alt a b) = min (minlen a) (minlen b)"
| "minlen (Rep g mn mx a) = (case mx of None \<Rightarrow> mn | Some k \<Rightarrow> min mn k) * minlen a"
| "minlen (Grp n a) = minlen a"
| "minlen _ = 0"

definition adv :: "nat \<Rightarrow> mstate \<Rightarrow> mstate \<Rightarrow> bool" where
  "adv k x y \<longleftrightarrow> (\<exists>w. rest_of x = w @ rest_of y \<and> fst y = fst x + length w \<and> k \<le> length w)"

lemma adv_refl: "adv 0 x x"
  by (simp add: adv_def)

lemma adv_trans: "adv k x y \<Longrightarrow> adv l y z \<Longrightarrow> adv (k + l) x z"
  by (fastforce simp: adv_def)

lemma adv_weaken: "adv k x y \<Longrightarrow> l \<le> k \<Longrightarrow> adv l x y"
  by (auto simp: adv_def)

lemma adv_clear: "adv k (clear gs x) y = adv k x y"
  by (cases x) (simp add: adv_def clear_def rest_of_def)

definition rep_bound :: "nat \<Rightarrow> nat option \<Rightarrow> nat" where
  "rep_bound mn mx = (case mx of None \<Rightarrow> mn | Some j \<Rightarrow> min mn j)"

lemma rep_bound_step:
  "mn \<noteq> 0 \<Longrightarrow> mx \<noteq> Some 0 \<Longrightarrow> rep_bound mn mx = Suc (rep_bound (mn - 1) (map_option (\<lambda>k. k - 1) mx))"
  by (auto simp: rep_bound_def split: option.splits)

lemma rep_sound:
  "(\<forall>x y. y \<in> set (m x) \<longrightarrow> adv k x y) \<Longrightarrow> y \<in> set (rep m gs greedy mn mx x) \<Longrightarrow>
   adv (rep_bound mn mx * k) x y"
proof (induction m gs greedy mn mx x arbitrary: y rule: rep.induct)
  case (1 m gs greedy mn mx x)
  note m = "1.prems"(1)
  show ?case
  proof (cases "mx = Some 0")
    case True
    with "1.prems" show ?thesis by (simp add: rep.simps adv_refl rep_bound_def)
  next
    case nz: False
    show ?thesis
    proof (cases "mn = 0")
      case True
      then have b: "rep_bound mn mx = 0" by (simp add: rep_bound_def split: option.splits)
      from "1.prems"(2) nz True consider "y = x"
        | z where "z \<in> set (m (clear gs x))" "length (rest_of z) < length (rest_of x)"
            "y \<in> set (rep m gs greedy 0 (map_option (\<lambda>k. k - 1) mx) z)"
        by (subst (asm) rep.simps) (auto simp: Let_def split: if_splits)
      then show ?thesis
      proof cases
        case 1
        with b show ?thesis by (simp add: adv_refl)
      next
        case 2
        have "adv (rep_bound 0 (map_option (\<lambda>k. k - 1) mx) * k) z y"
          using "1.IH"(2) [OF nz _ 2(1) _ m 2(3)] 2(2) True by simp
        then have "adv 0 z y" by (rule adv_weaken) simp
        moreover have "adv k (clear gs x) z" using m 2(1) by blast
        then have "adv k x z" by (simp only: adv_clear)
        ultimately have "adv (k + 0) x y" using adv_trans by blast
        then show ?thesis using b by (auto intro: adv_weaken)
      qed
    next
      case False
      from "1.prems"(2) nz False obtain z where z: "z \<in> set (m (clear gs x))"
            "y \<in> set (rep m gs greedy (mn - 1) (map_option (\<lambda>k. k - 1) mx) z)"
        by (subst (asm) rep.simps) auto
      have "adv (rep_bound (mn - 1) (map_option (\<lambda>k. k - 1) mx) * k) z y"
        using "1.IH"(1) [OF nz False z(1) m z(2)] .
      moreover have "adv k (clear gs x) z" using m z(1) by blast
      then have "adv k x z" by (simp only: adv_clear)
      ultimately have "adv (k + rep_bound (mn - 1) (map_option (\<lambda>k. k - 1) mx) * k) x y"
        using adv_trans by blast
      then show ?thesis by (simp add: rep_bound_step [OF False nz])
    qed
  qed
qed

lemma rx_sound: "y \<in> set (rx re x) \<Longrightarrow> adv (minlen re) x y"
proof (induction re arbitrary: x y)
  case Eps
  then show ?case by (simp add: adv_refl)
next
  case (Chr c)
  then show ?case by (cases x) (auto simp: adv_def rest_of_def split: list.splits if_splits)
next
  case (Cls s)
  then show ?case by (cases x) (auto simp: adv_def rest_of_def split: list.splits if_splits)
next
  case (Seq a b)
  from Seq.prems obtain z where "z \<in> set (rx a x)" "y \<in> set (rx b z)" by auto
  then show ?case using Seq.IH adv_trans by simp blast
next
  case (Alt a b)
  from Alt.prems have "y \<in> set (rx a x) \<or> y \<in> set (rx b x)" by simp
  then show ?case using Alt.IH adv_weaken
    by (metis minlen.simps(4) min.cobounded1 min.cobounded2)
next
  case (Rep g mn mx a)
  then show ?case using rep_sound [of "rx a" "minlen a" y "groups a" g mn mx x]
    by (simp add: rep_bound_def)
next
  case (Grp n a)
  from Grp.prems obtain z where z: "z \<in> set (rx a x)" "rest_of y = rest_of z" "fst y = fst z"
    by (auto simp: rest_of_def)
  from Grp.IH [OF z(1)] z(2,3) show ?case by (simp add: adv_def)
next
  case Bol
  then show ?case by (simp add: adv_refl split: if_splits)
next
  case Eol
  then show ?case by (simp add: adv_refl split: if_splits)
qed

lemma search_Bol_later: "0 < i \<Longrightarrow> search (Seq Bol re) i r = None"
  by (induction r arbitrary: i) (simp_all add: match_at_def)

lemma regexp_exec_Bol: "regexp_exec (Seq Bol re) s = match_at (Seq Bol re) 0 s"
  by (cases s) (simp_all add: regexp_exec_def search_Bol_later split: option.splits)

lemma match_at_sound:
  assumes "match_at re i r = Some m"
  shows "m_index m = i" and "\<exists>post. r = m_text m @ post" and "minlen re \<le> length (m_text m)"
proof -
  from assms obtain y ys where y: "rx re (i, r, []) = y # ys"
    and m: "m = \<lparr>m_index = i, m_text = take (length r - length (rest_of y)) r, m_captures = snd (snd y)\<rparr>"
    by (auto simp: match_at_def split: list.splits)
  from y have "adv (minlen re) (i, r, []) y" by (intro rx_sound) simp
  then obtain w where w: "r = w @ rest_of y" "minlen re \<le> length w"
    by (auto simp: adv_def rest_of_def)
  then have "take (length r - length (rest_of y)) r = w"
    by (metis add_diff_cancel_right' append_eq_conv_conj length_append)
  with m w show "m_index m = i" and "\<exists>post. r = m_text m @ post" and "minlen re \<le> length (m_text m)"
    by auto
qed

lemma search_sound:
  "search re i r = Some m \<Longrightarrow>
   \<exists>pre post. r = pre @ m_text m @ post \<and> m_index m = i + length pre \<and> minlen re \<le> length (m_text m)"
proof (induction r arbitrary: i)
  case Nil
  then show ?case using match_at_sound [of re i "[]" m] by auto
next
  case (Cons c r)
  show ?case
  proof (cases "match_at re i (c # r)")
    case None
    with Cons.prems have "search re (Suc i) r = Some m" by simp
    from Cons.IH [OF this] obtain pre post where
      "r = pre @ m_text m @ post" "m_index m = Suc i + length pre" "minlen re \<le> length (m_text m)"
      by blast
    then have "c # r = (c # pre) @ m_text m @ post \<and> m_index m = i + length (c # pre)
        \<and> minlen re \<le> length (m_text m)" by simp
    then show ?thesis by blast
  next
    case (Some m')
    with Cons.prems have "m' = m" by simp
    with Some match_at_sound [of re i "c # r" m] have
      "c # r = [] @ m_text m @ (SOME post. c # r = m_text m @ post) \<and> m_index m = i + length ([]::jsstring)
        \<and> minlen re \<le> length (m_text m)"
      by (auto intro: someI_ex)
    then show ?thesis by blast
  qed
qed

lemma regexp_exec_sound:
  "regexp_exec re s = Some m \<Longrightarrow>
   \<exists>pre post. s = pre @ m_text m @ post \<and> m_index m = length pre \<and> minlen re \<le> length (m_text m)"
  using search_sound [of re 0 s m] by (simp add: regexp_exec_def)

lemma regexp_exec_Bol_prefix:
  assumes "regexp_exec (Seq Bol re) s = Some m"
  shows "\<exists>post. s = m_text m @ post" and "m_index m = 0"
  using assms match_at_sound [of "Seq Bol re" 0 s m] by (simp_all add: regexp_exec_Bol)

section \<open>The inline tokenizer of parser.ts\<close>

text \<open>
  Modelled from the spec: \<open>TextBodyStyle\<close> and \<open>TextBody\<close> of definition.ts, which is not
  among the sources, as both tokenizers build and read them: a style out of four and a
  value. The constant field \<open>type: 'textBody'\<close> is left out.
\<close>

datatype TextBodyStyle = Plain | Italic | Strong | Code

record TextBody =
  style :: TextBodyStyle
  "value" :: jsval

type_synonym progress = "(TextBodyStyle \<times> jsval) option"

text \<open>
  \<open>TextBodyParseResult\<close> of parser.ts and \<open>ParseResult\<close> of parseTextBody.ts have the same
  fields and differ in the type of the finished runs.
\<close>

record 'r ParseResult =
  "text" :: jsstring
  progress :: progress
  result :: "'r list"

type_synonym TextBodyParseResult = "TextBody ParseResult"

definition checkHeadStyle :: "jsstring \<Rightarrow> TextBodyStyle \<times> jsstring" where
  "checkHeadStyle t =
     (if regexp_test (cat [Bol, Rep True 2 (Some 2) (Chr 42)]) t then (Strong, drop 2 t)
      else if regexp_test (cat [Bol, Rep True 1 (Some 1) (Chr 42)]) t then (Italic, drop 1 t)
      else if regexp_test (cat [Bol, Rep True 1 (Some 1) (Chr 95)]) t then (Italic, drop 1 t)
      else if regexp_test (cat [Bol, Rep True 1 (Some 1) (Chr 96)]) t then (Code, drop 1 t)
      else (Plain, t))"

lemma checkHeadStyle_eq:
  "checkHeadStyle t =
     (case t of
        [] \<Rightarrow> (Plain, [])
      | c # r \<Rightarrow>
          if c = 42 then (case r of [] \<Rightarrow> (Italic, r) | d # r' \<Rightarrow> if d = 42 then (Strong, r') else (Italic, r))
          else if c = 95 then (Italic, r)
          else if c = 96 then (Code, r)
          else (Plain, t))"
  by (auto simp: checkHeadStyle_def regexp_test_def regexp_exec_Bol match_at_def rep.simps clear_def
      split: list.splits)

text \<open>
  \<open>result[result.length - 1].style\<close> raises a TypeError on an empty \<open>result\<close>; \<open>last_style\<close>
  is that read.
\<close>

definition last_style :: "TextBody list \<Rightarrow> jserror + TextBodyStyle" where
  "last_style rs = (if rs = [] then Inl TypeError else Inr (style (last rs)))"

text \<open>The \<open>mark\<close> of the merge branch: a backquote, two asterisks, or an underscore.\<close>

definition mark_of :: "TextBodyStyle \<Rightarrow> jsstring" where
  "mark_of s = (if s = Code then [96] else if s = Strong then [42, 42] else [95])"

text \<open>
  \<open>parseTextBodyStyle\<close>. Its parameters \<open>text\<close>, \<open>progress\<close> and \<open>result\<close> are written \<open>t\<close>, \<open>p\<close>
  and \<open>res\<close> (the names are taken by the fields of what it returns). The unreachable
  \<open>default\<close> branches of the two \<open>switch\<close> statements have no counterpart: the styles are
  the four of the type.
\<close>

function parseTextBodyStyle :: "jsstring \<Rightarrow> progress \<Rightarrow> TextBody list
    \<Rightarrow> jserror + TextBodyParseResult" where
  "parseTextBodyStyle t p res =
     (if length t = 0 then
        (case p of
           None \<Rightarrow> Inr \<lparr>text = t, progress = None, result = res\<rparr>
         | Some (ps, ptext) \<Rightarrow>
             if ps \<noteq> Plain then
               (case last_style res of
                  Inl e \<Rightarrow> Inl e
                | Inr ls \<Rightarrow>
                    if ls = Plain then
                      Inr \<lparr>text = t, progress = None,
                           result = butlast res @
                             [\<lparr>style = Plain,
                               value = Str (str_plus (str_plus (to_string (value (last res)))
                                                       (Str (mark_of ps))) ptext)\<rparr>]\<rparr>
                    else Inr \<lparr>text = t, progress = None,
                              result = res @ [\<lparr>style = ps, value = ptext\<rparr>]\<rparr>)
             else Inr \<lparr>text = t, progress = None,
                       result = res @ [\<lparr>style = ps, value = ptext\<rparr>]\<rparr>)
      else
        (let (headStyle, headText) = checkHeadStyle t;
             first = char_at0 headText;
             rest = drop 1 headText
         in case p of
              None \<Rightarrow> parseTextBodyStyle rest (Some (headStyle, first)) res
            | Some (ps, ptext) \<Rightarrow>
                if ps = Plain then
                  (if headStyle = Plain
                   then parseTextBodyStyle rest (Some (Plain, Str (str_plus (or_empty ptext) first))) res
                   else parseTextBodyStyle rest (Some (headStyle, first))
                          (res @ [\<lparr>style = ps, value = ptext\<rparr>]))
                else
                  (if headStyle = ps
                   then parseTextBodyStyle headText None (res @ [\<lparr>style = ps, value = Str (or_empty ptext)\<rparr>])
                   else parseTextBodyStyle rest (Some (ps, Str (str_plus (or_empty ptext) first))) res)))"
  by pat_completeness auto

lemma checkHeadStyle_length:
  assumes "checkHeadStyle t = (hs, ht)"
  shows "length ht \<le> length t" and "hs \<noteq> Plain \<Longrightarrow> length ht < length t"
  using assms by (auto simp: checkHeadStyle_eq split: list.splits if_splits)

termination parseTextBodyStyle
proof (relation "measure (\<lambda>(t, p, res). length t)", goal_cases)
  case 1
  show ?case by simp
next
  case (2 t p res x headStyle headText)
  then show ?case using checkHeadStyle_length(1) [of t headStyle headText] by (cases t) auto
next
  case (3 t p res x headStyle headText)
  then show ?case using checkHeadStyle_length(1) [of t headStyle headText] by (cases t) auto
next
  case (4 t p res x headStyle headText)
  then show ?case using checkHeadStyle_length(1) [of t headStyle headText] by (cases t) auto
next
  case (5 t p res x headStyle headText)
  then show ?case using checkHeadStyle_length(2) [of t headStyle headText] by auto
next
  case (6 t p res x headStyle headText)
  then show ?case using checkHeadStyle_length(1) [of t headStyle headText] by (cases t) auto
qed

declare parseTextBodyStyle.simps [simp del]

text \<open>
  The tokenizer proper: the call \<open>parseTextBodyStyle({text, progress: null, result: []}).result\<close>
  that \<open>parseTextBody\<close> and \<open>parseLinkInText\<close> make.
\<close>

definition tokenize :: "jsstring \<Rightarrow> jserror + TextBody list" where
  "tokenize t = (case parseTextBodyStyle t None [] of Inl e \<Rightarrow> Inl e | Inr r \<Rightarrow> Inr (result r))"

section \<open>The standalone tokenizer of parseTextBody.ts\<close>

definition checkHeadStyle_standalone :: "jsstring \<Rightarrow> TextBodyStyle \<times> jsstring" where
  "checkHeadStyle_standalone t =
     (if regexp_test (cat [Bol, Rep True 2 (Some 2) (Chr 42)]) t then (Strong, drop 2 t)
      else if regexp_test (cat [Bol, Rep True 1 (Some 1) (Chr 42)]) t then (Italic, drop 1 t)
      else if regexp_test (cat [Bol, Rep True 1 (Some 1) (Chr 95)]) t then (Italic, drop 1 t)
      else if regexp_test (cat [Bol, Rep True 1 (Some 1) (Chr 96)]) t then (Code, drop 1 t)
      else (Plain, t))"

lemma checkHeadStyle_standalone_eq: "checkHeadStyle_standalone t = checkHeadStyle t"
  by (simp add: checkHeadStyle_standalone_def checkHeadStyle_def)

function parseTextBodyStyle_standalone :: "jsstring \<Rightarrow> progress \<Rightarrow> (TextBodyStyle \<times> jsval) list
    \<Rightarrow> (TextBodyStyle \<times> jsval) ParseResult" where
  "parseTextBodyStyle_standalone t p res =
     (if length t = 0 then
        \<lparr>text = t, progress = None,
         result = (case p of None \<Rightarrow> res | Some pr \<Rightarrow> res @ [pr])\<rparr>
      else
        (let (headStyle, headText) = checkHeadStyle_standalone t;
             first = char_at0 headText;
             rest = drop 1 headText
         in case p of
              None \<Rightarrow> parseTextBodyStyle_standalone rest (Some (headStyle, first)) res
            | Some (ps, ptext) \<Rightarrow>
                if ps = Plain then
                  (if headStyle = Plain
                   then parseTextBodyStyle_standalone rest
                          (Some (Plain, Str (str_plus (or_empty ptext) first))) res
                   else parseTextBodyStyle_standalone rest (Some (headStyle, first))
                          (res @ [(ps, ptext)]))
                else
                  (if headStyle = ps
                   then parseTextBodyStyle_standalone headText None
                          (res @ [(ps, Str (or_empty ptext))])
                   else parseTextBodyStyle_standalone rest
                          (Some (ps, Str (str_plus (or_empty ptext) first))) res)))"
  by pat_completeness auto
termination
proof (relation "measure (\<lambda>(t, p, res). length t)", goal_cases)
  case 1
  show ?case by simp
next
  case (2 t p res x headStyle headText)
  then show ?case using checkHeadStyle_length(1) [of t headStyle headText]
    by (cases t) (auto simp: checkHeadStyle_standalone_eq)
next
  case (3 t p res x headStyle headText)
  then show ?case using checkHeadStyle_length(1) [of t headStyle headText]
    by (cases t) (auto simp: checkHeadStyle_standalone_eq)
next
  case (4 t p res x headStyle headText)
  then show ?case using checkHeadStyle_length(1) [of t headStyle headText]
    by (cases t) (auto simp: checkHeadStyle_standalone_eq)
next
  case (5 t p res x headStyle headText)
  then show ?case using checkHeadStyle_length(2) [of t headStyle headText]
    by (auto simp: checkHeadStyle_standalone_eq)
next
  case (6 t p res x headStyle headText)
  then show ?case using checkHeadStyle_length(1) [of t headStyle headText]
    by (cases t) (auto simp: checkHeadStyle_standalone_eq)
qed

declare parseTextBodyStyle_standalone.simps [simp del]

definition parseTextBody_standalone :: "jsstring \<Rightarrow> TextBody list" where
  "parseTextBody_standalone input =
     map (\<lambda>(s, t). \<lparr>style = s, value = t\<rparr>)
         (result (parseTextBodyStyle_standalone input None []))"

section \<open>String operations of the host language\<close>

text \<open>\<open>s.slice(a)\<close> and \<open>s.slice(a, b)\<close>: a negative index counts from the end.\<close>

definition slice_index :: "jsstring \<Rightarrow> int \<Rightarrow> nat" where
  "slice_index s a = (let n = int (length s) in nat (if a < 0 then max (n + a) 0 else min a n))"

definition js_slice_from :: "jsstring \<Rightarrow> int \<Rightarrow> jsstring" where
  "js_slice_from s a = drop (slice_index s a) s"

definition js_slice :: "jsstring \<Rightarrow> int \<Rightarrow> int \<Rightarrow> jsstring" where
  "js_slice s a b = take (slice_index s b - slice_index s a) (drop (slice_index s a) s)"

text \<open>\<open>s.indexOf(sub)\<close>: the first index at which \<open>sub\<close> occurs, \<open>-1\<close> when it does not.\<close>

fun index_from :: "jsstring \<Rightarrow> jsstring \<Rightarrow> nat \<Rightarrow> int" where
  "index_from sub [] i = (if sub = [] then int i else - 1)"
| "index_from sub (c # r) i =
     (if take (length sub) (c # r) = sub then int i else index_from sub r (Suc i))"

definition index_of :: "jsstring \<Rightarrow> jsstring \<Rightarrow> int" where
  "index_of s sub = index_from sub s 0"

text \<open>
  \<open>s.replace(re, replacement)\<close>. A replacement is a sequence of literal texts and
  references \<open>$n\<close> to captures; an unset capture is replaced by the empty string.
\<close>

datatype repl = Lit jsstring | Ref nat

definition expand :: "repl list \<Rightarrow> rmatch \<Rightarrow> jsstring" where
  "expand rp m =
     concat (map (\<lambda>p. case p of Lit t \<Rightarrow> t
                       | Ref n \<Rightarrow> (case m_group m n of None \<Rightarrow> [] | Some g \<Rightarrow> g)) rp)"

text \<open>Without the global flag the first match is replaced.\<close>

definition js_replace :: "regex \<Rightarrow> repl list \<Rightarrow> jsstring \<Rightarrow> jsstring" where
  "js_replace re rp s =
     (case regexp_exec re s of
        None \<Rightarrow> s
      | Some m \<Rightarrow> take (m_index m) s @ expand rp m @ drop (m_index m + length (m_text m)) s)"

text \<open>
  With the global flag every match is replaced, each search starting where the previous
  match ended (one code unit further after an empty match). \<open>r\<close> is the text from index
  \<open>i\<close> on.
\<close>

function js_replace_all_from :: "regex \<Rightarrow> repl list \<Rightarrow> nat \<Rightarrow> jsstring \<Rightarrow> jsstring" where
  "js_replace_all_from re rp i r =
     (case match_at re i r of
        None \<Rightarrow> (case r of [] \<Rightarrow> [] | c # r' \<Rightarrow> c # js_replace_all_from re rp (Suc i) r')
      | Some m \<Rightarrow>
          if m_text m = [] then
            expand rp m @ (case r of [] \<Rightarrow> [] | c # r' \<Rightarrow> c # js_replace_all_from re rp (Suc i) r')
          else
            expand rp m @
            js_replace_all_from re rp (i + length (m_text m)) (drop (length (m_text m)) r))"
  by pat_completeness auto
termination
proof (relation "measure (\<lambda>(re, rp, i, r). length r)", goal_cases)
  case 1
  show ?case by simp
next
  case (2 re rp i r c r')
  then show ?case by simp
next
  case (3 re rp i r m c r')
  then show ?case by simp
next
  case (4 re rp i r m)
  from match_at_sound(2) [OF 4(1)] obtain post where "r = m_text m @ post" by blast
  then have "length (drop (length (m_text m)) r) = length r - length (m_text m)"
    and "length (m_text m) \<le> length r" by simp_all
  with 4(2) show ?case by (cases "m_text m") simp_all
qed

declare js_replace_all_from.simps [simp del]

definition js_replace_all :: "regex \<Rightarrow> repl list \<Rightarrow> jsstring \<Rightarrow> jsstring" where
  "js_replace_all re rp s = js_replace_all_from re rp 0 s"

text \<open>
  \<open>s.split(re)\<close> for a pattern without capture groups: \<open>r\<close> is the text from index \<open>i\<close> on,
  \<open>cur\<close> the piece collected since the last separator. A match that ends where the piece
  starts does not split.
\<close>

function js_split_from :: "regex \<Rightarrow> nat \<Rightarrow> jsstring \<Rightarrow> jsstring \<Rightarrow> jsstring list" where
  "js_split_from re i r cur =
     (case r of
        [] \<Rightarrow> [cur]
      | c # r' \<Rightarrow>
          (case match_at re i r of
             None \<Rightarrow> js_split_from re (Suc i) r' (cur @ [c])
           | Some m \<Rightarrow>
               if m_text m = [] \<and> cur = [] then js_split_from re (Suc i) r' (cur @ [c])
               else cur # js_split_from re (i + length (m_text m)) (drop (length (m_text m)) r) []))"
  by pat_completeness auto
termination
proof (relation "measures [(\<lambda>(re, i, r, cur). length r), (\<lambda>(re, i, r, cur). length cur)]", goal_cases)
  case 1
  show ?case by simp
next
  case (2 re i r cur c r')
  then show ?case by simp
next
  case (3 re i r cur c r' m)
  then show ?case by simp
next
  case (4 re i r cur c r' m)
  then show ?case by (cases "m_text m") auto
qed

declare js_split_from.simps [simp del]

definition js_split :: "regex \<Rightarrow> jsstring \<Rightarrow> jsstring list" where
  "js_split re s =
     (if s = [] then (if match_at re 0 [] = None then [[]] else [])
      else js_split_from re 0 s [])"

section \<open>The patterns of parser.ts\<close>

definition headingRegexp :: regex where
  "headingRegexp = cat [Bol, Grp 1 (Rep True 1 (Some 6) (Chr 35)), Cls CSpace, Grp 2 (rx_plus (Cls CDot))]"

definition quoteRegexp :: regex where
  "quoteRegexp = cat [Bol, rx_plus (cat [Chr 62, Cls CSpace, rx_star (Cls CDot), rx_opt (Chr 10)])]"

definition listRegexp :: regex where
  "listRegexp =
     cat [Bol, rx_plus (cat [Alt (Chr 45) (cat [rx_plus (Cls CDigit), Chr 46]), Cls CSpace,
                          Grp 1 (rx_plus (Cls CDot)), rx_opt (Chr 10)])]"

definition imageRegexp :: regex where
  "imageRegexp =
     cat [Bol, Chr 33, Chr 91, Grp 1 (rx_star (Cls CDot)), Chr 93, Chr 40,
          Grp 2 (rx_lazy_plus (Cls CDot)), Chr 41, Grp 3 (rx_star (Cls CDot))]"

definition codeRegexp :: regex where
  "codeRegexp =
     cat [Bol, Chr 96, Chr 96, Chr 96, rx_opt (Grp 1 (rx_plus (Cls CWord))), Chr 10,
          Grp 2 (rx_lazy_star (Cls CAny)), Chr 10, Chr 96, Chr 96, Chr 96]"

definition thematicBreakRegexp :: regex where
  "thematicBreakRegexp = cat [Bol, Rep True 3 None (Chr 45)]"

definition linkRegexp :: regex where
  "linkRegexp = cat [Chr 91, rx_lazy_plus (Cls CDot), Chr 93, Chr 40, rx_lazy_plus (Cls CDot), Chr 41]"

definition paragraphRegexp :: regex where
  "paragraphRegexp = cat [Bol, Grp 1 (rx_lazy_plus (Cls CAny)), Alt (Chr 10) Eol]"

section \<open>Inline bodies: links and styled text\<close>

text \<open>
  Modelled from the spec: the types of definition.ts, which is not among the sources
  (\<open>TextBody\<close>, \<open>Link\<close> and the blocks), as section 3 of the specification and the object
  literals of parser.ts give them. The constant \<open>type\<close> field of each object is the
  constructor.
\<close>

record Link =
  body :: "TextBody list"
  url :: jsstring

datatype Inline = Text TextBody | LinkSpan Link

datatype StringOrLink = Raw jsstring | Lnk Link

datatype ListItem = ListItem "Inline list"

datatype Block =
    HeadingBlock nat "Inline list"
  | ParagraphBlock "Inline list"
  | QuoteBlock "Inline list"
  | ListBlock bool "ListItem list"
  | ImageBlock jsstring jsstring jsstring
  | CodeBlock "jsstring option" jsstring
  | ThematicBreakBlock

text \<open>\<open>Boolean\<close> as the filter of \<open>parseLinkInText\<close>: an empty string is dropped.\<close>

fun truthy :: "StringOrLink \<Rightarrow> bool" where
  "truthy (Raw s) = (s \<noteq> [])"
| "truthy (Lnk l) = True"

text \<open>\<open>text.match(re)?.[1]\<close>, or the empty string when that is \<open>undefined\<close>.\<close>

definition group1_or_empty :: "regex \<Rightarrow> jsstring \<Rightarrow> jsstring" where
  "group1_or_empty re t = (case regexp_exec re t of None \<Rightarrow> [] | Some m \<Rightarrow> or_empty (group m 1))"

lemma index_from_lower: "- 1 \<le> index_from sub r i"
  by (induction r arbitrary: i) auto

lemma minlen_linkRegexp: "minlen linkRegexp = 6"
  by (simp add: linkRegexp_def)

text \<open>
  \<open>parseLinkInText\<close>: the label is tokenized first (an error of the tokenizer ends the
  call), then the text after the link is searched in turn.
\<close>

function parseLinkInText :: "jsstring \<Rightarrow> jserror + StringOrLink list" where
  "parseLinkInText input =
     (case regexp_exec linkRegexp input of
        None \<Rightarrow> Inr [Raw input]
      | Some linkMatch \<Rightarrow>
          (case tokenize (group1_or_empty (cat [Chr 91, Grp 1 (rx_plus (Cls CDot)), Chr 93])
                           (m_text linkMatch)) of
             Inl e \<Rightarrow> Inl e
           | Inr b \<Rightarrow>
               (case parseLinkInText
                       (js_slice_from input
                          (index_of input (m_text linkMatch) + int (length (m_text linkMatch)))) of
                  Inl e \<Rightarrow> Inl e
                | Inr after \<Rightarrow>
                    Inr (filter truthy
                          (Raw (js_slice input 0 (index_of input (m_text linkMatch)))
                           # Lnk \<lparr>body = b,
                                  url = group1_or_empty (cat [Chr 40, Grp 1 (rx_plus (Cls CDot)), Chr 41])
                                          (m_text linkMatch)\<rparr>
                           # after)))))"
  by pat_completeness auto
termination
proof (relation "measure length", goal_cases)
  case 1
  show ?case by simp
next
  case (2 input linkMatch b)
  from regexp_exec_sound [OF 2(1)] obtain pre post where
    s: "input = pre @ m_text linkMatch @ post" and l: "6 \<le> length (m_text linkMatch)"
    by (auto simp: minlen_linkRegexp)
  have "- 1 \<le> index_of input (m_text linkMatch)" by (simp add: index_of_def index_from_lower)
  with l s have "0 < slice_index input (index_of input (m_text linkMatch) + int (length (m_text linkMatch)))"
    by (auto simp: slice_index_def Let_def)
  with s l show ?case by (simp add: js_slice_from_def)
qed

declare parseLinkInText.simps [simp del]

text \<open>
  The \<open>map\<close> and \<open>flat\<close> of \<open>parseTextBody\<close>: each string is tokenized and its runs
  spliced in, each link is kept; the first tokenizer error ends it.
\<close>

fun flat_styles :: "StringOrLink list \<Rightarrow> jserror + Inline list" where
  "flat_styles [] = Inr []"
| "flat_styles (Raw item # items) =
     (case tokenize item of
        Inl e \<Rightarrow> Inl e
      | Inr runs \<Rightarrow>
          (case flat_styles items of Inl e \<Rightarrow> Inl e | Inr others \<Rightarrow> Inr (map Text runs @ others)))"
| "flat_styles (Lnk item # items) =
     (case flat_styles items of Inl e \<Rightarrow> Inl e | Inr others \<Rightarrow> Inr (LinkSpan item # others))"

definition parseTextBody :: "jsstring \<Rightarrow> jserror + Inline list" where
  "parseTextBody input =
     (case parseLinkInText input of Inl e \<Rightarrow> Inl e | Inr linkParsedTextList \<Rightarrow> flat_styles linkParsedTextList)"


section \<open>Block builders\<close>

definition and_then :: "'e + 'a \<Rightarrow> ('a \<Rightarrow> 'e + 'b) \<Rightarrow> 'e + 'b" where
  "and_then x f = (case x of Inl e \<Rightarrow> Inl e | Inr v \<Rightarrow> f v)"

text \<open>
  \<open>match[n]\<close> used as a string; on \<open>undefined\<close> the use raises a TypeError (none of the
  groups read this way can be unset in a successful match).
\<close>

definition group_str :: "rmatch \<Rightarrow> nat \<Rightarrow> jserror + jsstring" where
  "group_str m n = (case m_group m n of None \<Rightarrow> Inl TypeError | Some g \<Rightarrow> Inr g)"

definition parseParagraphBlock :: "jsstring \<Rightarrow> jserror + Block" where
  "parseParagraphBlock input = and_then (parseTextBody input) (\<lambda>b. Inr (ParagraphBlock b))"

definition parseHeadingBlock :: "jsstring \<Rightarrow> jserror + Block" where
  "parseHeadingBlock input =
     (case regexp_exec headingRegexp input of
        None \<Rightarrow> Inl InvalidHeadingBlock
      | Some m \<Rightarrow>
          and_then (group_str m 1) (\<lambda>hashes.
          and_then (group_str m 2) (\<lambda>t.
          and_then (parseTextBody t) (\<lambda>b. Inr (HeadingBlock (length hashes) b)))))"

definition parseQuoteBlock :: "jsstring \<Rightarrow> jserror + Block" where
  "parseQuoteBlock input =
     (case regexp_exec quoteRegexp input of
        None \<Rightarrow> Inl InvalidQuoteBlock
      | Some m \<Rightarrow>
          and_then
            (parseTextBody
               (js_replace (cat [Bol, Chr 62, Cls CSpace]) []
                  (js_replace_all (cat [Chr 10, Chr 62, rx_opt (Cls (COneOf [32]))]) [Lit [10]]
                     (m_text m))))
            (\<lambda>b. Inr (QuoteBlock b)))"

definition parseListItem :: "jsstring \<Rightarrow> jserror + ListItem" where
  "parseListItem line =
     (case regexp_exec listRegexp line of
        None \<Rightarrow> Inl InvalidListItem
      | Some m \<Rightarrow>
          and_then (group_str m 1) (\<lambda>content.
          and_then (parseTextBody content) (\<lambda>b. Inr (ListItem b))))"

text \<open>\<open>lines.map(f)\<close> where \<open>f\<close> may raise: the first error ends it.\<close>

fun map_items :: "('a \<Rightarrow> jserror + 'b) \<Rightarrow> 'a list \<Rightarrow> jserror + 'b list" where
  "map_items f [] = Inr []"
| "map_items f (x # xs) =
     (case f x of
        Inl e \<Rightarrow> Inl e
      | Inr y \<Rightarrow> (case map_items f xs of Inl e \<Rightarrow> Inl e | Inr ys \<Rightarrow> Inr (y # ys)))"

definition parseListBlock :: "jsstring \<Rightarrow> jserror + Block" where
  "parseListBlock input =
     (let lines = filter (\<lambda>line. js_trim line \<noteq> []) (js_split (rx_plus (Chr 10)) input);
          matches = map (regexp_exec listRegexp) lines;
          ordered = list_all (\<lambda>match. case match of
                                  None \<Rightarrow> False
                                | Some m \<Rightarrow> regexp_test (cat [Bol, Rep True 1 None (Cls CDigit), Chr 46])
                                            (m_text m)) matches
      in and_then (map_items parseListItem lines) (\<lambda>items. Inr (ListBlock ordered items)))"

text \<open>\<open>ImageBlock url altText caption\<close>; \<open>caption || ''\<close> leaves a string as it is.\<close>

definition parseImageBlock :: "jsstring \<Rightarrow> jserror + Block" where
  "parseImageBlock input =
     (case regexp_exec imageRegexp input of
        None \<Rightarrow> Inl InvalidImageBlock
      | Some m \<Rightarrow>
          and_then (group_str m 1) (\<lambda>altText.
          and_then (group_str m 2) (\<lambda>u.
          and_then (group_str m 3) (\<lambda>c.
            Inr (ImageBlock u altText
                   (js_replace (cat [Bol, Chr 40, Grp 1 (rx_plus (Cls CDot)), Chr 41, Eol]) [Ref 1] c))))))"

text \<open>\<open>CodeBlock lang body\<close>; \<open>match[1] || undefined\<close> is \<open>None\<close> for an unset or empty group.\<close>

definition parseCodeBlock :: "jsstring \<Rightarrow> jserror + Block" where
  "parseCodeBlock input =
     (case regexp_exec codeRegexp input of
        None \<Rightarrow> Inl InvalidCodeBlock
      | Some m \<Rightarrow>
          and_then (group_str m 2) (\<lambda>b.
            Inr (CodeBlock (case m_group m 1 of None \<Rightarrow> None
                            | Some l \<Rightarrow> if l = [] then None else Some l) b)))"

definition parseThematicBreakBlock :: "jsstring \<Rightarrow> jserror + Block" where
  "parseThematicBreakBlock input = Inr ThematicBreakBlock"

section \<open>The block matcher\<close>

definition regexpToParserPairs :: "(regex \<times> (jsstring \<Rightarrow> jserror + Block)) list" where
  "regexpToParserPairs =
     [(headingRegexp, parseHeadingBlock),
      (quoteRegexp, parseQuoteBlock),
      (listRegexp, parseListBlock),
      (imageRegexp, parseImageBlock),
      (codeRegexp, parseCodeBlock),
      (thematicBreakRegexp, parseThematicBreakBlock),
      (paragraphRegexp, parseParagraphBlock)]"

text \<open>
  The loop of \<open>parseBlocks\<close> over the pairs: the first pattern that tests true is executed
  and its builder chosen; when the loop ends without one, the error of the last line of
  \<open>parseBlocks\<close> is raised.
\<close>

fun find_rule :: "(regex \<times> (jsstring \<Rightarrow> jserror + Block)) list \<Rightarrow> jsstring
    \<Rightarrow> jserror + ((jsstring \<Rightarrow> jserror + Block) \<times> rmatch)" where
  "find_rule [] input = Inl (NoMatchingBlock input)"
| "find_rule ((regexp, parser) # pairs) input =
     (if regexp_test regexp input then
        (case regexp_exec regexp input of
           None \<Rightarrow> Inl InvalidBlock
         | Some match \<Rightarrow> Inr (parser, match))
      else find_rule pairs input)"

lemma find_rule_sound:
  "find_rule pairs input = Inr (parser, m) \<Longrightarrow>
   \<exists>re. (re, parser) \<in> set pairs \<and> regexp_exec re input = Some m"
  by (induction pairs) (auto split: if_splits option.splits)

lemma length_js_trim: "length (js_trim s) \<le> length s"
proof -
  have "length (js_trim s) \<le> length (dropWhile is_space s)"
    unfolding js_trim_def length_rev by (metis length_dropWhile_le length_rev)
  also have "\<dots> \<le> length s" by (rule length_dropWhile_le)
  finally show ?thesis .
qed

lemma block_rule_consumes:
  assumes "(re, parser) \<in> set regexpToParserPairs" and "regexp_exec re input = Some m"
  shows "m_text m \<noteq> []" and "\<exists>post. input = m_text m @ post"
proof -
  from assms(1) obtain re' where re: "re = Seq Bol re'" and l: "1 \<le> minlen re"
    by (auto simp: regexpToParserPairs_def headingRegexp_def quoteRegexp_def listRegexp_def
        imageRegexp_def codeRegexp_def thematicBreakRegexp_def paragraphRegexp_def)
  from regexp_exec_sound [OF assms(2)] l show "m_text m \<noteq> []" by auto
  from regexp_exec_Bol_prefix(1) [of re' input m] assms(2) re
  show "\<exists>post. input = m_text m @ post" by simp
qed

lemma block_rule_remainder:
  assumes "(re, parser) \<in> set regexpToParserPairs" and "regexp_exec re input = Some m"
  shows "length (js_trim (drop (length (m_text m)) input)) < length input"
proof -
  from block_rule_consumes [OF assms] obtain post where
    "m_text m \<noteq> []" "input = m_text m @ post" by blast
  then have "length (drop (length (m_text m)) input) < length input"
    by (cases "m_text m") auto
  with length_js_trim [of "drop (length (m_text m)) input"] show ?thesis by simp
qed

function parseBlocks :: "jsstring \<Rightarrow> jserror + Block list" where
  "parseBlocks input =
     (if js_trim input = [] then Inr []
      else
        (case find_rule regexpToParserPairs input of
           Inl e \<Rightarrow> Inl e
         | Inr (parser, match) \<Rightarrow>
             (case parser (js_trim (m_text match)) of
                Inl e \<Rightarrow> Inl e
              | Inr block \<Rightarrow>
                  (case parseBlocks (js_trim (drop (length (m_text match)) input)) of
                     Inl e \<Rightarrow> Inl e
                   | Inr blocks \<Rightarrow> Inr (block # blocks)))))"
  by pat_completeness auto
termination
proof (relation "measure length", goal_cases)
  case 1
  show ?case by simp
next
  case (2 input found parser match block)
  from 2(2,3) have "find_rule regexpToParserPairs input = Inr (parser, match)" by simp
  from find_rule_sound [OF this] obtain re where
    "(re, parser) \<in> set regexpToParserPairs" "regexp_exec re input = Some match" by blast
  from block_rule_remainder [OF this] show ?case by simp
qed

declare parseBlocks.simps [simp del]

section \<open>Header, body and the entry point\<close>

definition split :: "jsstring \<Rightarrow> jsstring \<times> jsstring" where
  "split input =
     (let trimmed = js_trim input;
          head = (case regexp_exec
                         (cat [Bol, Grp 1 (cat [Chr 45, Chr 45, Chr 45, Chr 10, rx_lazy_star (Cls CAny),
                                                Chr 45, Chr 45, Chr 45]),
                               rx_star (Chr 10)]) trimmed of
                    None \<Rightarrow> []
                  | Some m \<Rightarrow> or_empty (group m 1));
          rest = js_trim (drop (length head) trimmed)
      in (head, rest))"

text \<open>
  The frontmatter object as a map from its keys to their values: \<open>map.set\<close> gives a key its
  value, overwriting the value of a key that is present, and \<open>Object.fromEntries\<close> makes
  the object that has these keys with these values. The order in which an object
  enumerates its keys is not part of the model.
\<close>

definition frontmatter_line :: "(jsstring \<rightharpoonup> jsstring) \<Rightarrow> jsstring \<Rightarrow> (jsstring \<rightharpoonup> jsstring)" where
  "frontmatter_line mp line =
     (case regexp_exec (cat [Bol, Grp 1 (rx_lazy_plus (Cls CDot)), Chr 58, Cls CSpace, Grp 2 (rx_plus (Cls CDot))])
             line of
        None \<Rightarrow> mp
      | Some m \<Rightarrow>
          (case (m_group m 1, m_group m 2) of
             (Some k, Some v) \<Rightarrow>
               if k = [] \<or> v = [] then mp
               else mp (js_trim k \<mapsto>
                      js_replace (cat [Bol, rx_opt (Cls (COneOf [34, 39])), Grp 1 (rx_lazy_plus (Cls CDot)),
                                       rx_opt (Cls (COneOf [34, 39])), Eol]) [Ref 1] (js_trim v))
           | _ \<Rightarrow> mp))"

definition parseFrontmatter :: "jsstring \<Rightarrow> (jsstring \<rightharpoonup> jsstring)" where
  "parseFrontmatter input =
     (case regexp_exec (cat [Chr 45, Chr 45, Chr 45, rx_plus (Chr 10), Grp 1 (rx_plus (Cls CAny)),
                             Chr 45, Chr 45, Chr 45]) input of
        None \<Rightarrow> Map.empty
      | Some m \<Rightarrow>
          (case m_group m 1 of
             None \<Rightarrow> Map.empty
           | Some content \<Rightarrow>
               if content = [] then Map.empty
               else foldl frontmatter_line Map.empty
                      (filter (\<lambda>line. js_trim line \<noteq> []) (js_split (rx_plus (Chr 10)) content))))"

record Document =
  frontmatter :: "jsstring \<rightharpoonup> jsstring"
  blocks :: "Block list"

definition parse :: "jsstring \<Rightarrow> jserror + Document" where
  "parse input =
     (case split input of
        (h, b) \<Rightarrow>
          (let fm = parseFrontmatter h
           in and_then (parseBlocks b) (\<lambda>bs. Inr \<lparr>frontmatter = fm, blocks = bs\<rparr>)))"

section \<open>Unfolding the tokenizers\<close>

lemma pTBS_Nil:
  "parseTextBodyStyle [] p res =
     (case p of
        None \<Rightarrow> Inr \<lparr>text = [], progress = None, result = res\<rparr>
      | Some (ps, ptext) \<Rightarrow>
          if ps \<noteq> Plain then
            (if res = [] then Inl TypeError
             else if style (last res) = Plain then
               Inr \<lparr>text = [], progress = None,
                    result = butlast res @
                      [\<lparr>style = Plain,
                        value = Str (to_string (value (last res)) @ mark_of ps @ to_string ptext)\<rparr>]\<rparr>
             else Inr \<lparr>text = [], progress = None, result = res @ [\<lparr>style = ps, value = ptext\<rparr>]\<rparr>)
          else Inr \<lparr>text = [], progress = None, result = res @ [\<lparr>style = ps, value = ptext\<rparr>]\<rparr>)"
  by (simp add: parseTextBodyStyle.simps last_style_def str_plus_def split: option.splits)

lemma pTBS_Cons:
  assumes "t \<noteq> []" "checkHeadStyle t = (hs, ht)"
  shows "parseTextBodyStyle t p res =
     (case p of
        None \<Rightarrow> parseTextBodyStyle (drop 1 ht) (Some (hs, char_at0 ht)) res
      | Some (ps, ptext) \<Rightarrow>
          if ps = Plain then
            (if hs = Plain
             then parseTextBodyStyle (drop 1 ht) (Some (Plain, Str (or_empty ptext @ to_string (char_at0 ht)))) res
             else parseTextBodyStyle (drop 1 ht) (Some (hs, char_at0 ht)) (res @ [\<lparr>style = ps, value = ptext\<rparr>]))
          else
            (if hs = ps
             then parseTextBodyStyle ht None (res @ [\<lparr>style = ps, value = Str (or_empty ptext)\<rparr>])
             else parseTextBodyStyle (drop 1 ht) (Some (ps, Str (or_empty ptext @ to_string (char_at0 ht)))) res))"
  using assms by (subst parseTextBodyStyle.simps) (simp add: str_plus_def split: option.splits)


lemma pTBSs_Nil:
  "parseTextBodyStyle_standalone [] p res =
     \<lparr>text = [], progress = None, result = (case p of None \<Rightarrow> res | Some pr \<Rightarrow> res @ [pr])\<rparr>"
  by (simp add: parseTextBodyStyle_standalone.simps)

lemma pTBSs_Cons:
  assumes "t \<noteq> []" "checkHeadStyle t = (hs, ht)"
  shows "parseTextBodyStyle_standalone t p res =
     (case p of
        None \<Rightarrow> parseTextBodyStyle_standalone (drop 1 ht) (Some (hs, char_at0 ht)) res
      | Some (ps, ptext) \<Rightarrow>
          if ps = Plain then
            (if hs = Plain
             then parseTextBodyStyle_standalone (drop 1 ht) (Some (Plain, Str (or_empty ptext @ to_string (char_at0 ht)))) res
             else parseTextBodyStyle_standalone (drop 1 ht) (Some (hs, char_at0 ht)) (res @ [(ps, ptext)]))
          else
            (if hs = ps
             then parseTextBodyStyle_standalone ht None (res @ [(ps, Str (or_empty ptext))])
             else parseTextBodyStyle_standalone (drop 1 ht) (Some (ps, Str (or_empty ptext @ to_string (char_at0 ht)))) res))"
  using assms by (subst parseTextBodyStyle_standalone.simps)
    (simp add: str_plus_def checkHeadStyle_standalone_eq split: option.splits)

section \<open>The style of the run that is open when the text is exhausted\<close>

text \<open>
  The scan of \<open>parseTextBodyStyle\<close> (the same in both files) with the styles only:
  \<open>open_style_at_end t cur\<close> is the style of the current run when the text \<open>t\<close>, scanned
  from a current run of style \<open>cur\<close>, is exhausted; \<open>None\<close> when there is no current run.
  Every opened styled run is closed before the end of the input when that style is \<open>None\<close>
  or \<open>Plain\<close>.
\<close>

function open_style_at_end :: "jsstring \<Rightarrow> TextBodyStyle option \<Rightarrow> TextBodyStyle option" where
  "open_style_at_end t cur =
     (if t = [] then cur
      else
        (let (headStyle, headText) = checkHeadStyle t
         in case cur of
              None \<Rightarrow> open_style_at_end (drop 1 headText) (Some headStyle)
            | Some ps \<Rightarrow>
                if ps = Plain then open_style_at_end (drop 1 headText) (Some headStyle)
                else if headStyle = ps then open_style_at_end headText None
                else open_style_at_end (drop 1 headText) (Some ps)))"
  by pat_completeness auto
termination
proof (relation "measure (\<lambda>(t, cur). length t)", goal_cases)
  case 1
  show ?case by simp
next
  case (2 t cur x headStyle headText)
  then show ?case using checkHeadStyle_length(1) [of t headStyle headText] by (cases t) auto
next
  case (3 t cur x headStyle headText)
  then show ?case using checkHeadStyle_length(1) [of t headStyle headText] by (cases t) auto
next
  case (4 t cur x headStyle headText)
  then show ?case using checkHeadStyle_length(2) [of t headStyle headText] by auto
next
  case (5 t cur x headStyle headText)
  then show ?case using checkHeadStyle_length(1) [of t headStyle headText] by (cases t) auto
qed

declare open_style_at_end.simps [simp del]

definition styled_runs_closed :: "jsstring \<Rightarrow> bool" where
  "styled_runs_closed t \<longleftrightarrow> open_style_at_end t None = None \<or> open_style_at_end t None = Some Plain"

lemma open_style_Nil: "open_style_at_end [] cur = cur"
  by (simp add: open_style_at_end.simps)

lemma open_style_Cons:
  assumes "t \<noteq> []" "checkHeadStyle t = (hs, ht)"
  shows "open_style_at_end t cur =
     (case cur of
        None \<Rightarrow> open_style_at_end (drop 1 ht) (Some hs)
      | Some ps \<Rightarrow>
          if ps = Plain then open_style_at_end (drop 1 ht) (Some hs)
          else if hs = ps then open_style_at_end ht None
          else open_style_at_end (drop 1 ht) (Some ps))"
  using assms by (subst open_style_at_end.simps) (simp split: option.splits)

definition run_of :: "TextBodyStyle \<times> jsval \<Rightarrow> TextBody" where
  "run_of pr = \<lparr>style = fst pr, value = snd pr\<rparr>"

lemma shorter_rest:
  assumes "t \<noteq> []" "checkHeadStyle t = (hs, ht)"
  shows "length (drop 1 ht) < length t"
  using assms checkHeadStyle_length(1) [of t hs ht] by (cases t) auto

lemma tokenizers_agree_gen:
  assumes "open_style_at_end t (map_option fst p) = None \<or> open_style_at_end t (map_option fst p) = Some Plain"
  shows "parseTextBodyStyle t p (map run_of res) =
         Inr \<lparr>text = [], progress = None,
              result = map run_of (result (parseTextBodyStyle_standalone t p res))\<rparr>"
  using assms
proof (induction "length t" arbitrary: t p res rule: less_induct)
  case less
  show ?case
  proof (cases "t = []")
    case True
    with less.prems show ?thesis
      by (auto simp: pTBS_Nil pTBSs_Nil open_style_Nil run_of_def split: option.splits)
  next
    case False
    obtain hs ht where h: "checkHeadStyle t = (hs, ht)" by (cases "checkHeadStyle t")
    have l1: "length (drop 1 ht) < length t" by (rule shorter_rest [OF False h])
    have l2: "hs \<noteq> Plain \<Longrightarrow> length ht < length t"
      using checkHeadStyle_length(2) [OF h] .
    have a: "map run_of res @ [\<lparr>style = s, value = v\<rparr>] = map run_of (res @ [(s, v)])" for s v
      by (simp add: run_of_def)
    show ?thesis
    proof (cases p)
      case None
      with less.prems False h have "open_style_at_end (drop 1 ht) (map_option fst (Some (hs, char_at0 ht))) = None
          \<or> open_style_at_end (drop 1 ht) (map_option fst (Some (hs, char_at0 ht))) = Some Plain"
        by (simp add: open_style_Cons)
      from less.hyps [OF l1 this] None show ?thesis
        by (simp add: pTBS_Cons [OF False h] pTBSs_Cons [OF False h])
    next
      case (Some pr)
      obtain ps ptext where pr: "pr = (ps, ptext)" by (cases pr)
      show ?thesis
      proof (cases "ps = Plain")
        case True
        with less.prems False h Some pr have o: "open_style_at_end (drop 1 ht) (map_option fst (Some (hs, v))) = None
          \<or> open_style_at_end (drop 1 ht) (map_option fst (Some (hs, v))) = Some Plain" for v :: jsval
          by (simp add: open_style_Cons)
        show ?thesis
        proof (cases "hs = Plain")
          case hp: True
          from less.hyps [OF l1 o, of "Str (or_empty ptext @ to_string (char_at0 ht))" res] hp True Some pr
          show ?thesis
            by (simp add: pTBS_Cons [OF False h] pTBSs_Cons [OF False h])
        next
          case hp: False
          from less.hyps [OF l1 o, of "char_at0 ht" "res @ [(ps, ptext)]"] hp True Some pr
          show ?thesis
            by (simp add: pTBS_Cons [OF False h] pTBSs_Cons [OF False h] a del: map_append)
        qed
      next
        case ns: False
        show ?thesis
        proof (cases "hs = ps")
          case True
          with less.prems False h Some pr ns have o: "open_style_at_end ht (map_option fst None) = None
            \<or> open_style_at_end ht (map_option fst None) = Some Plain"
            by (simp add: open_style_Cons)
          from True ns have "length ht < length t" using l2 by simp
          from less.hyps [OF this o, of "res @ [(ps, Str (or_empty ptext))]"] True ns Some pr show ?thesis
            by (simp add: pTBS_Cons [OF False h] pTBSs_Cons [OF False h] a del: map_append)
        next
          case False2: False
          with less.prems False h Some pr ns have o: "open_style_at_end (drop 1 ht) (map_option fst (Some (ps, v))) = None
            \<or> open_style_at_end (drop 1 ht) (map_option fst (Some (ps, v))) = Some Plain" for v :: jsval
            by (simp add: open_style_Cons)
          from less.hyps [OF l1 o, of _ res] False2 ns Some pr show ?thesis
            by (simp add: pTBS_Cons [OF False h] pTBSs_Cons [OF False h])
        qed
      qed
    qed
  qed
qed

section \<open>Evaluation and helper lemmas\<close>

text \<open>The definitions that the simplifier unfolds to run the program on a concrete input.\<close>

lemmas ev_regex = regexp_exec_def regexp_test_def match_at_def rep.simps clear_def rest_of_def js_def
  is_space_def is_line_terminator_def is_digit_def is_word_def Let_def

lemmas ev_tokenize = tokenize_def parseTextBodyStyle.simps checkHeadStyle_eq last_style_def mark_of_def
  str_plus_def

lemmas ev_inline = parseTextBody_def parseLinkInText.simps linkRegexp_def group1_or_empty_def group_def
  m_group_def index_of_def js_slice_def js_slice_from_def slice_index_def

lemmas ev_block = parseBlocks.simps regexpToParserPairs_def js_trim_def and_then_def group_str_def
  parseParagraphBlock_def parseHeadingBlock_def parseQuoteBlock_def
  headingRegexp_def quoteRegexp_def listRegexp_def imageRegexp_def codeRegexp_def
  thematicBreakRegexp_def paragraphRegexp_def js_replace_def js_replace_all_def
  js_replace_all_from.simps expand_def

lemma search_needs_first:
  "c \<notin> set r \<Longrightarrow> search (Seq (Chr c) re) i r = None"
  by (induction r arbitrary: i) (auto simp: match_at_def)

lemma no_bracket_no_link: "91 \<notin> set input \<Longrightarrow> \<not> regexp_test linkRegexp input"
  by (simp add: regexp_test_def regexp_exec_def linkRegexp_def search_needs_first)

subsection \<open>The paragraph rule, the errors of the builders and the length of the result\<close>

lemma clear_Nil: "clear [] x = x"
  by (cases x) (simp add: clear_def)

lemma rx_SeqI: "y \<in> set (rx a x) \<Longrightarrow> z \<in> set (rx b y) \<Longrightarrow> z \<in> set (rx (Seq a b) x)"
  by auto

lemma rx_GrpI:
  "(j, r', cp') \<in> set (rx a x) \<Longrightarrow>
   (j, r', (n, take (length (rest_of x) - length r') (rest_of x)) # cp') \<in> set (rx (Grp n a) x)"
  by force

lemma match_at_SomeI: "y \<in> set (rx re (i, r, [])) \<Longrightarrow> match_at re i r \<noteq> None"
  by (auto simp: match_at_def split: list.splits)

lemma lazy_reaches_end:
  assumes "\<And>i c r cp. m (i, c # r, cp) = [(Suc i, r, cp)]"
  shows "(i + length r, [], cp) \<in> set (rep m [] False 0 None (i, r, cp))"
proof (induction r arbitrary: i)
  case Nil
  show ?case by (subst rep.simps) (simp add: clear_Nil)
next
  case (Cons c r)
  from Cons.IH [of "Suc i"] show ?case
    by (subst rep.simps) (simp add: clear_Nil rest_of_def assms)
qed

lemma paragraphRegexp_matches:
  assumes "input \<noteq> []"
  shows "regexp_test paragraphRegexp input"
proof -
  obtain c r where input: "input = c # r" using assms by (cases input) auto
  have any: "rx (Cls CAny) (i, c # r, cp) = [(Suc i, r, cp)]" for i c r cp
    by simp
  have "(Suc 0 + length r, [], []) \<in> set (rep (rx (Cls CAny)) [] False 0 None (Suc 0, r, []))"
    by (rule lazy_reaches_end) (rule any)
  then have "(length input, [], []) \<in> set (rx (rx_lazy_plus (Cls CAny)) (0, input, []))"
    by (simp add: input rep.simps [of _ _ _ "Suc 0"] clear_Nil any del: rx.simps(3))
  from rx_GrpI [OF this, of 1]
  have "(length input, [], [(1, input)]) \<in> set (rx (Grp 1 (rx_lazy_plus (Cls CAny))) (0, input, []))"
    by (simp add: rest_of_def)
  moreover have "(length input, [], [(1, input)]) \<in> set (rx (Alt (Chr 10) Eol) (length input, [], [(1, input)]))"
    by (simp add: rest_of_def)
  ultimately have "(length input, [], [(1, input)]) \<in>
      set (rx (Seq (Grp 1 (rx_lazy_plus (Cls CAny))) (Alt (Chr 10) Eol)) (0, input, []))"
    by (rule rx_SeqI)
  moreover have "(0, input, []) \<in> set (rx Bol (0, input, []))" by simp
  ultimately have "(length input, [], [(1, input)]) \<in> set (rx paragraphRegexp (0, input, []))"
    unfolding paragraphRegexp_def cat.simps by (rule rx_SeqI [rotated])
  from match_at_SomeI [OF this] show ?thesis
    by (simp add: regexp_test_def paragraphRegexp_def regexp_exec_Bol)
qed

lemma pTBS_error: "parseTextBodyStyle t p res = Inl e \<Longrightarrow> e = TypeError"
proof (induction "length t" arbitrary: t p res rule: less_induct)
  case less
  show ?case
  proof (cases "t = []")
    case True
    with less.prems show ?thesis by (auto simp: pTBS_Nil split: option.splits if_splits)
  next
    case False
    obtain hs ht where h: "checkHeadStyle t = (hs, ht)" by (cases "checkHeadStyle t")
    have l1: "length (drop 1 ht) < length t" by (rule shorter_rest [OF False h])
    have l2: "hs \<noteq> Plain \<Longrightarrow> length ht < length t"
      using checkHeadStyle_length(2) [OF h] .
    from less.prems show ?thesis
      unfolding pTBS_Cons [OF False h]
      using less.hyps [OF l1] less.hyps [OF l2]
      by (auto split: option.splits if_splits)
  qed
qed

lemma tokenize_error: "tokenize t = Inl e \<Longrightarrow> e = TypeError"
  by (auto simp: tokenize_def dest: pTBS_error split: sum.splits)

lemma parseLinkInText_error: "parseLinkInText input = Inl e \<Longrightarrow> e = TypeError"
proof (induction input rule: parseLinkInText.induct)
  case (1 input)
  from "1.prems" show ?case
    by (subst (asm) parseLinkInText.simps)
      (auto split: option.splits sum.splits dest: tokenize_error "1.IH")
qed

lemma flat_styles_error: "flat_styles items = Inl e \<Longrightarrow> e = TypeError"
  by (induction items rule: flat_styles.induct) (auto split: sum.splits dest: tokenize_error)

lemma parseTextBody_error: "parseTextBody t = Inl e \<Longrightarrow> e = TypeError"
  by (auto simp: parseTextBody_def split: sum.splits dest: parseLinkInText_error flat_styles_error)

lemma map_items_error:
  assumes "\<And>x e. f x = Inl e \<Longrightarrow> P e"
  shows "map_items f xs = Inl e \<Longrightarrow> P e"
  by (induction xs) (auto split: sum.splits dest: assms)

lemma parseListItem_error: "parseListItem line = Inl e \<Longrightarrow> e = TypeError \<or> e = InvalidListItem"
  by (auto simp: parseListItem_def and_then_def group_str_def
      split: option.splits sum.splits dest: parseTextBody_error)

lemma builder_errors:
  assumes "(re, parser) \<in> set regexpToParserPairs" and "parser t = Inl e"
  shows "e \<noteq> NoMatchingBlock x"
proof -
  have "e \<noteq> NoMatchingBlock x" if "map_items parseListItem ls = Inl e" for ls
    using map_items_error [of parseListItem "\<lambda>e. e = TypeError \<or> e = InvalidListItem" ls e]
      parseListItem_error that by auto
  with assms show ?thesis
    by (auto simp: regexpToParserPairs_def parseHeadingBlock_def parseQuoteBlock_def
        parseListBlock_def parseImageBlock_def parseCodeBlock_def parseThematicBreakBlock_def
        parseParagraphBlock_def and_then_def group_str_def Let_def
        split: option.splits sum.splits dest: parseTextBody_error)
qed

lemma find_rule_no_match:
  "find_rule pairs input = Inl (NoMatchingBlock x) \<Longrightarrow>
   (re, parser) \<in> set pairs \<Longrightarrow> \<not> regexp_test re input"
  by (induction pairs) (auto split: if_splits option.splits)

lemma find_rule_matches:
  assumes "input \<noteq> []"
  shows "find_rule regexpToParserPairs input \<noteq> Inl (NoMatchingBlock x)"
proof
  assume "find_rule regexpToParserPairs input = Inl (NoMatchingBlock x)"
  from find_rule_no_match [OF this, of paragraphRegexp parseParagraphBlock]
  have "\<not> regexp_test paragraphRegexp input" by (simp add: regexpToParserPairs_def)
  with paragraphRegexp_matches [OF assms] show False by simp
qed

lemma js_trim_Nil: "js_trim [] = []"
  by (simp add: js_trim_def)

lemma parseBlocks_no_unmatched: "parseBlocks input \<noteq> Inl (NoMatchingBlock x)"
proof (induction input rule: parseBlocks.induct)
  case (1 input)
  show ?case
  proof (cases "js_trim input = []")
    case True
    then show ?thesis by (simp add: parseBlocks.simps)
  next
    case False
    then have ne: "input \<noteq> []" using js_trim_Nil by auto
    show ?thesis
    proof
      assume a: "parseBlocks input = Inl (NoMatchingBlock x)"
      from find_rule_matches [OF ne, of x] obtain v where
        "find_rule regexpToParserPairs input = Inl v \<and> v \<noteq> NoMatchingBlock x
         \<or> (\<exists>parser m. find_rule regexpToParserPairs input = Inr (parser, m))"
        by (cases "find_rule regexpToParserPairs input") auto
      then show False
      proof (elim disjE conjE exE)
        assume "find_rule regexpToParserPairs input = Inl v" "v \<noteq> NoMatchingBlock x"
        with a False show False by (subst (asm) parseBlocks.simps) simp
      next
        fix parser m
        assume f: "find_rule regexpToParserPairs input = Inr (parser, m)"
        from find_rule_sound [OF f] obtain re where re: "(re, parser) \<in> set regexpToParserPairs" by blast
        show False
        proof (cases "parser (js_trim (m_text m))")
          case (Inl e)
          with a f False have "e = NoMatchingBlock x" by (subst (asm) parseBlocks.simps) simp
          with builder_errors [OF re Inl, of x] show False by simp
        next
          case (Inr b)
          from a have "(case parseBlocks (js_trim (drop (length (m_text m)) input)) of
              Inl e \<Rightarrow> Inl e | Inr bs \<Rightarrow> Inr (b # bs)) = Inl (NoMatchingBlock x)"
            by (subst (asm) parseBlocks.simps) (simp add: f False Inr)
          then have "parseBlocks (js_trim (drop (length (m_text m)) input)) = Inl (NoMatchingBlock x)"
            by (simp split: sum.splits)
          with "1.IH" [OF False f refl Inr] show False by simp
        qed
      qed
    qed
  qed
qed

lemma parseBlocks_length: "parseBlocks input = Inr bs \<Longrightarrow> length bs \<le> length input"
proof (induction input arbitrary: bs rule: parseBlocks.induct)
  case (1 input)
  show ?case
  proof (cases "js_trim input = []")
    case True
    with "1.prems" show ?thesis by (simp add: parseBlocks.simps)
  next
    case False
    from "1.prems" False obtain parser m b bs' where
      f: "find_rule regexpToParserPairs input = Inr (parser, m)"
      and b: "parser (js_trim (m_text m)) = Inr b"
      and r: "parseBlocks (js_trim (drop (length (m_text m)) input)) = Inr bs'"
      and bs: "bs = b # bs'"
      by (subst (asm) parseBlocks.simps) (auto split: sum.splits)
    from "1.IH" [OF False f refl b r]
    have "length bs' \<le> length (js_trim (drop (length (m_text m)) input))" .
    moreover from find_rule_sound [OF f] obtain re where
      "(re, parser) \<in> set regexpToParserPairs" "regexp_exec re input = Some m" by blast
    from block_rule_remainder [OF this]
    have "length (js_trim (drop (length (m_text m)) input)) < length input" .
    ultimately show ?thesis using bs by simp
  qed
qed

section \<open>Adjacent runs\<close>

text \<open>
  The claim about styles as stated: no two consecutive runs have the same style. And what
  the accumulator guarantees: no two consecutive runs are both plain.
\<close>

fun adjacent_styles_differ :: "TextBody list \<Rightarrow> bool" where
  "adjacent_styles_differ (x # y # rs) = (style x \<noteq> style y \<and> adjacent_styles_differ (y # rs))"
| "adjacent_styles_differ _ = True"

fun no_adjacent_plain :: "TextBody list \<Rightarrow> bool" where
  "no_adjacent_plain (x # y # rs) =
     (\<not> (style x = Plain \<and> style y = Plain) \<and> no_adjacent_plain (y # rs))"
| "no_adjacent_plain _ = True"

lemma no_adjacent_plain_snoc:
  "no_adjacent_plain (rs @ [x]) \<longleftrightarrow>
   no_adjacent_plain rs \<and> (rs = [] \<or> style (last rs) \<noteq> Plain \<or> style x \<noteq> Plain)"
  by (induction rs rule: no_adjacent_plain.induct) auto

lemma no_adjacent_plain_butlast:
  "no_adjacent_plain rs \<Longrightarrow> no_adjacent_plain (butlast rs)"
  by (induction rs rule: no_adjacent_plain.induct) (auto split: if_splits)

lemma no_adjacent_plain_last2:
  "no_adjacent_plain rs \<Longrightarrow> rs \<noteq> [] \<Longrightarrow> style (last rs) = Plain \<Longrightarrow>
   butlast rs = [] \<or> style (last (butlast rs)) \<noteq> Plain"
  by (induction rs rule: no_adjacent_plain.induct) (auto split: if_splits)

lemma pTBS_no_adjacent_plain:
  "parseTextBodyStyle t p res = Inr R \<Longrightarrow> no_adjacent_plain res \<Longrightarrow>
   ((p = None \<or> (\<exists>v. p = Some (Plain, v))) \<longrightarrow> res = [] \<or> style (last res) \<noteq> Plain) \<Longrightarrow>
   no_adjacent_plain (result R)"
proof (induction "length t" arbitrary: t p res rule: less_induct)
  case less
  show ?case
  proof (cases "t = []")
    case True
    with less.prems no_adjacent_plain_last2 [of res] show ?thesis
      by (auto simp: pTBS_Nil no_adjacent_plain_snoc no_adjacent_plain_butlast
          split: option.splits if_splits)
  next
    case False
    obtain hs ht where h: "checkHeadStyle t = (hs, ht)" by (cases "checkHeadStyle t")
    have l1: "length (drop 1 ht) < length t" by (rule shorter_rest [OF False h])
    have l2: "hs \<noteq> Plain \<Longrightarrow> length ht < length t"
      using checkHeadStyle_length(2) [OF h] .
    note step = less.prems(1) [unfolded pTBS_Cons [OF False h]]
    show ?thesis
    proof (cases p)
      case None
      with step have "parseTextBodyStyle (drop 1 ht) (Some (hs, char_at0 ht)) res = Inr R" by simp
      from less.hyps [OF l1 this less.prems(2)] less.prems(3) None show ?thesis by simp
    next
      case (Some pr)
      obtain ps v where pr: "pr = (ps, v)" by (cases pr)
      show ?thesis
      proof (cases "ps = Plain")
        case True
        show ?thesis
        proof (cases "hs = Plain")
          case hp: True
          with step Some pr True have
            "parseTextBodyStyle (drop 1 ht) (Some (Plain, Str (or_empty v @ to_string (char_at0 ht)))) res = Inr R"
            by simp
          from less.hyps [OF l1 this less.prems(2)] less.prems(3) Some pr True show ?thesis by simp
        next
          case hp: False
          with step Some pr True have
            "parseTextBodyStyle (drop 1 ht) (Some (hs, char_at0 ht)) (res @ [\<lparr>style = ps, value = v\<rparr>]) = Inr R"
            by simp
          moreover have "no_adjacent_plain (res @ [\<lparr>style = ps, value = v\<rparr>])"
            using less.prems(2,3) Some pr True by (simp add: no_adjacent_plain_snoc)
          ultimately show ?thesis using less.hyps [OF l1] hp by simp
        qed
      next
        case ns: False
        show ?thesis
        proof (cases "hs = ps")
          case True
          with step Some pr ns have
            "parseTextBodyStyle ht None (res @ [\<lparr>style = ps, value = Str (or_empty v)\<rparr>]) = Inr R"
            by simp
          moreover have "no_adjacent_plain (res @ [\<lparr>style = ps, value = Str (or_empty v)\<rparr>])"
            using less.prems(2) ns by (simp add: no_adjacent_plain_snoc)
          moreover have "length ht < length t" using l2 True ns by simp
          ultimately show ?thesis using less.hyps [of ht None] ns by simp
        next
          case False
          with step Some pr ns have
            "parseTextBodyStyle (drop 1 ht) (Some (ps, Str (or_empty v @ to_string (char_at0 ht)))) res = Inr R"
            by simp
          from less.hyps [OF l1 this less.prems(2)] ns show ?thesis by simp
        qed
      qed
    qed
  qed
qed

section \<open>Reinserting the markers\<close>

text \<open>
  The marker texts of a style, and every text that reinserting the consumed markers
  around each run's value can give: before the value an opening marker of the run's
  style, after it a closing marker of that style, or none for a run that the end of the
  text left open. A run records neither which of the two italic markers was consumed nor
  whether it was closed, so each choice is tried.
\<close>

fun markers :: "TextBodyStyle \<Rightarrow> jsstring list" where
  "markers Plain = [[]]"
| "markers Italic = [[42], [95]]"
| "markers Strong = [[42, 42]]"
| "markers Code = [[96]]"

definition closing_markers :: "TextBodyStyle \<Rightarrow> jsstring list" where
  "closing_markers s = (if s = Plain then [[]] else markers s @ [[]])"

fun reinsertions :: "TextBody list \<Rightarrow> jsstring list" where
  "reinsertions [] = [[]]"
| "reinsertions (r # rs) =
     concat (map (\<lambda>opening. concat (map (\<lambda>closing.
        map (\<lambda>others. opening @ to_string (value r) @ closing @ others) (reinsertions rs))
        (closing_markers (style r)))) (markers (style r)))"

section \<open>The first result of the matcher\<close>














section \<open>What the quote pattern matches\<close>












section \<open>Quoted lines\<close>











section \<open>Stripping the markers\<close>
















section \<open>Trimming\<close>

lemma js_trim_id:
  assumes "s \<noteq> []" "\<not> is_space (hd s)" "\<not> is_space (last s)"
  shows "js_trim s = s" and "js_trim (s @ [10]) = s"
proof -
  from assms(1,2) have a: "dropWhile is_space s = s" "dropWhile is_space (s @ [10]) = s @ [10]"
    by (cases s; simp)+
  from assms(1,3) have b: "dropWhile is_space (rev s) = rev s"
    by (cases s rule: rev_cases) simp_all
  have c: "is_space 10" by (simp add: is_space_def)
  show "js_trim s = s" by (simp add: js_trim_def a b)
  show "js_trim (s @ [10]) = s" by (simp add: js_trim_def a b c)
qed

lemma js_trim_trimmed:
  "js_trim s = [] \<or> (\<not> is_space (hd (js_trim s)) \<and> \<not> is_space (last (js_trim s)))"
proof -
  let ?t = "dropWhile is_space s"
  let ?u = "dropWhile is_space (rev ?t)"
  have u: "js_trim s = rev ?u" by (simp add: js_trim_def)
  show ?thesis
  proof (cases "?u = []")
    case True
    then show ?thesis by (simp add: u)
  next
    case False
    then have l: "\<not> is_space (hd ?u)" by (rule hd_dropWhile)
    from False have tn: "?t \<noteq> []" by (auto simp del: dropWhile_eq_Nil_conv)
    then have h: "\<not> is_space (hd ?t)" by (rule hd_dropWhile)
    have "?u = drop (length (takeWhile is_space (rev ?t))) (rev ?t)"
      by (rule dropWhile_eq_drop)
    then have "rev ?u = take (length ?t - length (takeWhile is_space (rev ?t))) ?t"
      by (simp add: rev_drop)
    moreover have "rev ?u \<noteq> []" using False by simp
    ultimately have "hd (rev ?u) = hd ?t"
      by (metis hd_take take_eq_Nil2 not_gr_zero take_0)
    with h l False show ?thesis by (simp add: u last_rev)
  qed
qed

lemma js_trim_js_trim: "js_trim (js_trim s) = js_trim s"
proof (cases "js_trim s = []")
  case True
  then show ?thesis by (simp add: js_trim_Nil)
next
  case False
  with js_trim_trimmed [of s] show ?thesis by (intro js_trim_id(1)) auto
qed


section \<open>The quote rule in the block matcher\<close>


















section \<open>The rules in their order\<close>

lemma find_rule_find:
  "find_rule pairs input =
     (case List.find (\<lambda>(regexp, parser). regexp_test regexp input) pairs of
        None \<Rightarrow> Inl (NoMatchingBlock input)
      | Some (regexp, parser) \<Rightarrow>
          (case regexp_exec regexp input of
             None \<Rightarrow> Inl InvalidBlock
           | Some match \<Rightarrow> Inr (parser, match)))"
  by (induction pairs) (auto split: option.splits)

lemma parseBlocks_first_match:
  "parseBlocks input =
     (if js_trim input = [] then Inr []
      else
        (case List.find (\<lambda>(regexp, parser). regexp_test regexp input)
                [(headingRegexp, parseHeadingBlock),
                 (quoteRegexp, parseQuoteBlock),
                 (listRegexp, parseListBlock),
                 (imageRegexp, parseImageBlock),
                 (codeRegexp, parseCodeBlock),
                 (thematicBreakRegexp, parseThematicBreakBlock),
                 (paragraphRegexp, parseParagraphBlock)] of
           None \<Rightarrow> Inl (NoMatchingBlock input)
         | Some (regexp, parser) \<Rightarrow>
             (case regexp_exec regexp input of
                None \<Rightarrow> Inl InvalidBlock
              | Some match \<Rightarrow>
                  (case parser (js_trim (m_text match)) of
                     Inl e \<Rightarrow> Inl e
                   | Inr block \<Rightarrow>
                       (case parseBlocks (js_trim (drop (length (m_text match)) input)) of
                          Inl e \<Rightarrow> Inl e
                        | Inr bs \<Rightarrow> Inr (block # bs))))))"
  unfolding regexpToParserPairs_def [symmetric]
  by (subst parseBlocks.simps) (simp add: find_rule_find split: option.splits prod.splits)

lemma parse_body:
  "parse input =
     (case parseBlocks (snd (split input)) of
        Inl e \<Rightarrow> Inl e
      | Inr bs \<Rightarrow> Inr \<lparr>frontmatter = parseFrontmatter (fst (split input)), blocks = bs\<rparr>)"
  by (simp add: parse_def and_then_def case_prod_unfold Let_def)

lemma split_body_trimmed: "js_trim (snd (split input)) = snd (split input)"
  by (simp add: split_def Let_def js_trim_js_trim)

lemma list_then_thematic_break:
  "parseBlocks (js ''- a\<newline>---'') =
     Inr [ListBlock False [ListItem [Text \<lparr>style = Plain, value = Str (js ''a'')\<rparr>]], ThematicBreakBlock]"
  by (simp add: ev_regex ev_tokenize ev_inline ev_block parseListBlock_def parseListItem_def
      parseThematicBreakBlock_def js_split_def js_split_from.simps)

section \<open>Claims\<close>

text \<open>
  C1. The claim: for every input string the inline tokenizer returns a sequence of runs
  without failing, also for a string that ends with an open styled run while the list of
  finished runs is empty. On the code the empty string gives the empty sequence, but the
  input \<open>*a\<close> ends with an open italic run and no finished run, and the read of the last
  finished run raises a TypeError, in the tokenizer and in \<open>parseTextBody\<close>; so does the
  end of the text in every state with an open styled run and no finished run.
\<close>

theorem tokenizer_raises_on_open_first_run:
  "tokenize [] = Inr [] \<and>
   tokenize (js ''*a'') = Inl TypeError \<and>
   parseTextBody (js ''*a'') = Inl TypeError \<and>
   parseTextBodyStyle [] (Some (Italic, v)) [] = Inl TypeError \<and>
   parseTextBodyStyle [] (Some (Strong, v)) [] = Inl TypeError \<and>
   parseTextBodyStyle [] (Some (Code, v)) [] = Inl TypeError"
  by (simp add: ev_regex ev_tokenize ev_inline)

text \<open>
  C2, as stated: \<open>parseBlocks\<close> evaluates its rules in the order heading, quote, list, image,
  code, thematic break, paragraph against the remaining left-trimmed text, and the first
  match wins. The rules are evaluated against the text as \<open>parseBlocks\<close> receives it, which
  is not trimmed first: a heading line after a space is a paragraph, while the same text
  without the space is a heading.
\<close>

theorem rules_see_text_as_given_counterexample:
  "parseBlocks (js '' # T'') =
     Inr [ParagraphBlock [Text \<lparr>style = Plain, value = Str (js ''# T'')\<rparr>]] \<and>
   parseBlocks (dropWhile is_space (js '' # T'')) =
     Inr [HeadingBlock 1 [Text \<lparr>style = Plain, value = Str (js ''T'')\<rparr>]]"
  by (simp add: ev_regex ev_tokenize ev_inline ev_block)

text \<open>
  C2, as the code has it: for every text, \<open>parseBlocks\<close> returns no block when the text is
  empty after trimming, and otherwise takes the first of the pairs heading, quote, list,
  image, code, thematic break, paragraph, in this order, whose pattern matches the text as
  it is given, applies the builder of that pair to the trimmed match, and goes on with
  the trimmed remainder; a trimmed text is left as it is by trimming, and the body that
  \<open>parse\<close> hands to \<open>parseBlocks\<close> is trimmed, so that from \<open>parse\<close> on every text the rules see
  is trimmed. A list line followed by three hyphens is a list and a thematic break (the
  paragraph rule, which matches both, comes last), and \<open>parse\<close> of a heading line, a quote
  line and a plain line yields exactly a heading of level 1, a quote and a paragraph.
\<close>

theorem parseBlocks_rules_in_order:
  "parseBlocks input =
     (if js_trim input = [] then Inr []
      else
        (case List.find (\<lambda>(regexp, parser). regexp_test regexp input)
                [(headingRegexp, parseHeadingBlock),
                 (quoteRegexp, parseQuoteBlock),
                 (listRegexp, parseListBlock),
                 (imageRegexp, parseImageBlock),
                 (codeRegexp, parseCodeBlock),
                 (thematicBreakRegexp, parseThematicBreakBlock),
                 (paragraphRegexp, parseParagraphBlock)] of
           None \<Rightarrow> Inl (NoMatchingBlock input)
         | Some (regexp, parser) \<Rightarrow>
             (case regexp_exec regexp input of
                None \<Rightarrow> Inl InvalidBlock
              | Some match \<Rightarrow>
                  (case parser (js_trim (m_text match)) of
                     Inl e \<Rightarrow> Inl e
                   | Inr block \<Rightarrow>
                       (case parseBlocks (js_trim (drop (length (m_text match)) input)) of
                          Inl e \<Rightarrow> Inl e
                        | Inr bs \<Rightarrow> Inr (block # bs)))))) \<and>
   js_trim (js_trim s) = js_trim s \<and>
   js_trim (snd (split doc)) = snd (split doc) \<and>
   parse doc =
     (case parseBlocks (snd (split doc)) of
        Inl e \<Rightarrow> Inl e
      | Inr bs \<Rightarrow> Inr \<lparr>frontmatter = parseFrontmatter (fst (split doc)), blocks = bs\<rparr>) \<and>
   parseBlocks (js ''- a\<newline>---'') =
     Inr [ListBlock False [ListItem [Text \<lparr>style = Plain, value = Str (js ''a'')\<rparr>]],
          ThematicBreakBlock] \<and>
   parse (js ''# T\<newline>> Q\<newline>P'') =
     Inr \<lparr>frontmatter = Map.empty,
          blocks = [HeadingBlock 1 [Text \<lparr>style = Plain, value = Str (js ''T'')\<rparr>],
                    QuoteBlock [Text \<lparr>style = Plain, value = Str (js ''Q'')\<rparr>],
                    ParagraphBlock [Text \<lparr>style = Plain, value = Str (js ''P'')\<rparr>]]\<rparr>"
proof (intro conjI)
  show "parse (js ''# T\<newline>> Q\<newline>P'') =
     Inr \<lparr>frontmatter = Map.empty,
          blocks = [HeadingBlock 1 [Text \<lparr>style = Plain, value = Str (js ''T'')\<rparr>],
                    QuoteBlock [Text \<lparr>style = Plain, value = Str (js ''Q'')\<rparr>],
                    ParagraphBlock [Text \<lparr>style = Plain, value = Str (js ''P'')\<rparr>]]\<rparr>"
    by (simp add: parse_def split_def parseFrontmatter_def ev_regex ev_tokenize ev_inline ev_block)
  show "parseBlocks (js ''- a\<newline>---'') =
     Inr [ListBlock False [ListItem [Text \<lparr>style = Plain, value = Str (js ''a'')\<rparr>]],
          ThematicBreakBlock]"
    by (rule list_then_thematic_break)
qed (rule parseBlocks_first_match js_trim_js_trim split_body_trimmed parse_body)+

theorem parseBlocks_rules_in_order_witness:
  "js_trim (js ''---'') \<noteq> [] \<and> parseBlocks (js ''---'') = Inr [ThematicBreakBlock]"
proof -
  have e: "parseBlocks [] = Inr []" by (simp add: parseBlocks.simps js_trim_def)
  from parseBlocks_rules_in_order [of "js ''---''"] show ?thesis
    by (simp add: e ev_regex js_trim_def headingRegexp_def quoteRegexp_def listRegexp_def
        imageRegexp_def codeRegexp_def thematicBreakRegexp_def paragraphRegexp_def
        parseThematicBreakBlock_def)
qed

text \<open>
  C3, as stated: in the runs that the tokenizer returns no two consecutive runs have the
  same style. The input \<open>*a*_b_\<close> refutes it: an italic run is closed and another italic
  run opened right after it, and nothing merges finished runs.
\<close>

theorem same_style_runs_counterexample:
  "tokenize (js ''*a*_b_'') =
     Inr [\<lparr>style = Italic, value = Str (js ''a'')\<rparr>, \<lparr>style = Italic, value = Str (js ''b'')\<rparr>] \<and>
   \<not> adjacent_styles_differ
       [\<lparr>style = Italic, value = Str (js ''a'')\<rparr>, \<lparr>style = Italic, value = Str (js ''b'')\<rparr>]"
  by (simp add: ev_regex ev_tokenize)

text \<open>
  C3, as the code has it: for every input on which the tokenizer returns, no two
  consecutive runs are both plain (the accumulator coalesces plain characters, and only
  those).
\<close>

theorem no_adjacent_plain_runs:
  assumes "tokenize t = Inr rs"
  shows "no_adjacent_plain rs"
proof -
  from assms obtain R where "parseTextBodyStyle t None [] = Inr R" and "rs = result R"
    by (auto simp: tokenize_def split: sum.splits)
  with pTBS_no_adjacent_plain [of t None "[]" R] show ?thesis by simp
qed

theorem no_adjacent_plain_runs_witness:
  "tokenize (js ''x*a*_b_ y`c'') =
     Inr [\<lparr>style = Plain, value = Str (js ''x'')\<rparr>, \<lparr>style = Italic, value = Str (js ''a'')\<rparr>,
          \<lparr>style = Italic, value = Str (js ''b'')\<rparr>, \<lparr>style = Plain, value = Str (js '' y`c'')\<rparr>] \<and>
   no_adjacent_plain
     [\<lparr>style = Plain, value = Str (js ''x'')\<rparr>, \<lparr>style = Italic, value = Str (js ''a'')\<rparr>,
      \<lparr>style = Italic, value = Str (js ''b'')\<rparr>, \<lparr>style = Plain, value = Str (js '' y`c'')\<rparr>]"
proof -
  have h: "tokenize (js ''x*a*_b_ y`c'') =
     Inr [\<lparr>style = Plain, value = Str (js ''x'')\<rparr>, \<lparr>style = Italic, value = Str (js ''a'')\<rparr>,
          \<lparr>style = Italic, value = Str (js ''b'')\<rparr>, \<lparr>style = Plain, value = Str (js '' y`c'')\<rparr>]"
    by (simp add: ev_regex ev_tokenize)
  from no_adjacent_plain_runs [OF h] h show ?thesis by blast
qed

text \<open>
  C4. The claim: for every input, the values of the returned runs, with the consumed
  opening and closing markers reinserted at the style boundaries, give back the input
  exactly. On the code a marker of another style inside an open styled run is lost: the
  scan takes the marker off the text and appends the character after it, so the code run
  with an asterisk between two letters is returned with the two letters only, and the
  one with an underscore likewise; no reinsertion of markers around the run gives the
  input back.
\<close>

theorem marker_inside_open_run_is_lost:
  "tokenize (js ''`a*b`'') = Inr [\<lparr>style = Code, value = Str (js ''ab'')\<rparr>] \<and>
   js ''`a*b`'' \<notin> set (reinsertions [\<lparr>style = Code, value = Str (js ''ab'')\<rparr>]) \<and>
   tokenize (js ''`x_y`'') = Inr [\<lparr>style = Code, value = Str (js ''xy'')\<rparr>] \<and>
   js ''`x_y`'' \<notin> set (reinsertions [\<lparr>style = Code, value = Str (js ''xy'')\<rparr>])"
  by (simp add: ev_regex ev_tokenize closing_markers_def)

text \<open>
  C5. The claim: an unterminated styled run that follows a plain run is merged into that
  plain run, prefixed with the marker characters that opened it. On the code the input
  \<open>a*b\<close>, whose italic run is opened with an asterisk, is merged with an underscore, as
  every open italic run is at the end of the text, whatever opened it.
\<close>

theorem unterminated_star_restored_as_underscore:
  "tokenize (js ''a*b'') = Inr [\<lparr>style = Plain, value = Str (js ''a_b'')\<rparr>] \<and>
   parseTextBodyStyle [] (Some (Italic, Str v)) (res @ [\<lparr>style = Plain, value = Str u\<rparr>]) =
     Inr \<lparr>text = [], progress = None,
          result = res @ [\<lparr>style = Plain, value = Str (u @ js ''_'' @ v)\<rparr>]\<rparr>"
  by (simp add: ev_regex ev_tokenize)

text \<open>
  C6. For every body text that is not empty after trimming, a rule of \<open>parseBlocks\<close>
  matches, because the paragraph pattern matches every non-empty text; so the loop over
  the rules never ends without a match, and \<open>parseBlocks\<close> never raises the error of its
  last line, whatever the input.
\<close>

theorem paragraph_fallback_always_matches:
  "(js_trim input \<noteq> [] \<longrightarrow>
      regexp_test paragraphRegexp input \<and>
      (\<exists>pair \<in> set regexpToParserPairs. regexp_test (fst pair) input) \<and>
      find_rule regexpToParserPairs input \<noteq> Inl (NoMatchingBlock x)) \<and>
   parseBlocks input \<noteq> Inl (NoMatchingBlock x)"
proof (intro conjI impI)
  assume "js_trim input \<noteq> []"
  then have ne: "input \<noteq> []" using js_trim_Nil by auto
  from paragraphRegexp_matches [OF ne] show p: "regexp_test paragraphRegexp input" .
  have "(paragraphRegexp, parseParagraphBlock) \<in> set regexpToParserPairs"
    by (simp add: regexpToParserPairs_def)
  with p show "\<exists>pair \<in> set regexpToParserPairs. regexp_test (fst pair) input" by force
  from find_rule_matches [OF ne] show "find_rule regexpToParserPairs input \<noteq> Inl (NoMatchingBlock x)" .
next
  show "parseBlocks input \<noteq> Inl (NoMatchingBlock x)" by (rule parseBlocks_no_unmatched)
qed

theorem paragraph_fallback_always_matches_witness:
  "js_trim (js ''x'') \<noteq> [] \<and> regexp_test paragraphRegexp (js ''x'') \<and>
   find_rule regexpToParserPairs (js ''x'') \<noteq> Inl (NoMatchingBlock (js ''x'')) \<and>
   parseBlocks (js ''x'') \<noteq> Inl (NoMatchingBlock (js ''x''))"
proof -
  have h: "js_trim (js ''x'') \<noteq> []" by (simp add: js_def js_trim_def is_space_def)
  from paragraph_fallback_always_matches [of "js ''x''" "js ''x''"] h show ?thesis by blast
qed




text \<open>
  C8. \<open>parseLinkInText\<close> (the link extractor) splits the example into the text before the
  link, the link with its tokenized label and its url, and the text after it; and an
  input in which the link pattern does not occur (in particular one without an opening
  bracket) is returned whole, as a single string.
\<close>

theorem extractLinks_example_and_no_link:
  "parseLinkInText (js ''see [x](http://e) now'') =
     Inr [Raw (js ''see ''),
          Lnk \<lparr>body = [\<lparr>style = Plain, value = Str (js ''x'')\<rparr>], url = js ''http://e''\<rparr>,
          Raw (js '' now'')] \<and>
   (\<not> regexp_test linkRegexp input \<longrightarrow> parseLinkInText input = Inr [Raw input]) \<and>
   (91 \<notin> set input \<longrightarrow> parseLinkInText input = Inr [Raw input])"
proof (intro conjI impI)
  show "parseLinkInText (js ''see [x](http://e) now'') =
     Inr [Raw (js ''see ''),
          Lnk \<lparr>body = [\<lparr>style = Plain, value = Str (js ''x'')\<rparr>], url = js ''http://e''\<rparr>,
          Raw (js '' now'')]"
    by (simp add: ev_regex ev_tokenize ev_inline)
  show "parseLinkInText input = Inr [Raw input]" if "\<not> regexp_test linkRegexp input"
    using that by (simp add: parseLinkInText.simps regexp_test_def)
  then show "parseLinkInText input = Inr [Raw input]" if "91 \<notin> set input"
    using that no_bracket_no_link by blast
qed

theorem extractLinks_example_and_no_link_witness:
  "\<not> regexp_test linkRegexp (js ''a [b] (c)'') \<and>
   parseLinkInText (js ''a [b] (c)'') = Inr [Raw (js ''a [b] (c)'')] \<and>
   91 \<notin> set (js ''plain'') \<and> parseLinkInText (js ''plain'') = Inr [Raw (js ''plain'')]"
proof -
  have a: "\<not> regexp_test linkRegexp (js ''a [b] (c)'')"
    by (simp add: ev_regex linkRegexp_def)
  have b: "91 \<notin> set (js ''plain'')" by (simp add: js_def)
  from extractLinks_example_and_no_link [of "js ''a [b] (c)''"] a
    extractLinks_example_and_no_link [of "js ''plain''"] b
  show ?thesis by blast
qed

text \<open>
  C9. For every input string in which every opened styled run is closed before the end of
  the input, the standalone tokenizer of parseTextBody.ts and the tokenizer embedded in
  parser.ts return the same sequence of runs.
\<close>

theorem tokenizers_agree_when_closed:
  assumes "styled_runs_closed input"
  shows "tokenize input = Inr (parseTextBody_standalone input)"
proof -
  have "parseTextBodyStyle input None (map run_of []) =
         Inr \<lparr>text = [], progress = None,
              result = map run_of (result (parseTextBodyStyle_standalone input None []))\<rparr>"
    using assms by (intro tokenizers_agree_gen) (simp add: styled_runs_closed_def)
  then show ?thesis
    by (simp add: tokenize_def parseTextBody_standalone_def run_of_def case_prod_unfold)
qed

theorem tokenizers_agree_when_closed_witness:
  "styled_runs_closed (js ''*a* b'') \<and>
   tokenize (js ''*a* b'') = Inr (parseTextBody_standalone (js ''*a* b''))"
proof -
  have h: "styled_runs_closed (js ''*a* b'')" by code_simp
  from tokenizers_agree_when_closed [OF h] h show ?thesis by simp
qed

text \<open>
  C10. \<open>parseBlocks\<close> terminates: the text matched by a rule is a non-empty prefix of the
  input, so the trimmed remainder given to the recursive call is strictly shorter than
  the input; a text that is empty after trimming ends the recursion; and the result has
  at most as many blocks as the input has code units. (The definition of \<open>parseBlocks\<close> is
  accepted with this measure: it is a total function.)
\<close>

theorem parseBlocks_consumes_and_terminates:
  "((re, parser) \<in> set regexpToParserPairs \<and> regexp_exec re input = Some m \<longrightarrow>
      m_text m \<noteq> [] \<and> take (length (m_text m)) input = m_text m \<and>
      length (js_trim (drop (length (m_text m)) input)) < length input) \<and>
   (js_trim input = [] \<longrightarrow> parseBlocks input = Inr []) \<and>
   (parseBlocks input = Inr bs \<longrightarrow> length bs \<le> length input)"
proof (intro conjI impI)
  assume a: "(re, parser) \<in> set regexpToParserPairs \<and> regexp_exec re input = Some m"
  then show "m_text m \<noteq> []" using block_rule_consumes(1) by blast
  from a block_rule_consumes(2) [of re parser input m] show "take (length (m_text m)) input = m_text m"
    by auto
  from a show "length (js_trim (drop (length (m_text m)) input)) < length input"
    using block_rule_remainder by blast
next
  assume "js_trim input = []"
  then show "parseBlocks input = Inr []" by (simp add: parseBlocks.simps)
next
  assume "parseBlocks input = Inr bs"
  then show "length bs \<le> length input" by (rule parseBlocks_length)
qed

theorem parseBlocks_consumes_and_terminates_witness:
  "(paragraphRegexp, parseParagraphBlock) \<in> set regexpToParserPairs \<and>
   regexp_exec paragraphRegexp (js ''P'') =
     Some \<lparr>m_index = 0, m_text = js ''P'', m_captures = [(1, js ''P'')]\<rparr> \<and>
   length (js_trim (drop (length (js ''P'')) (js ''P''))) < length (js ''P'') \<and>
   js_trim (js '' '') = [] \<and> parseBlocks (js '' '') = Inr [] \<and>
   parseBlocks (js ''P'') = Inr [ParagraphBlock [Text \<lparr>style = Plain, value = Str (js ''P'')\<rparr>]] \<and>
   length [ParagraphBlock [Text \<lparr>style = Plain, value = Str (js ''P'')\<rparr>]] \<le> length (js ''P'')"
proof -
  have a: "(paragraphRegexp, parseParagraphBlock) \<in> set regexpToParserPairs"
    by (simp add: regexpToParserPairs_def)
  have b: "regexp_exec paragraphRegexp (js ''P'') =
     Some \<lparr>m_index = 0, m_text = js ''P'', m_captures = [(1, js ''P'')]\<rparr>"
    by (simp add: ev_regex paragraphRegexp_def)
  have c: "js_trim (js '' '') = []" by (simp add: js_def js_trim_def is_space_def)
  have d: "parseBlocks (js ''P'') = Inr [ParagraphBlock [Text \<lparr>style = Plain, value = Str (js ''P'')\<rparr>]]"
    by (simp add: ev_regex ev_tokenize ev_inline ev_block)
  from parseBlocks_consumes_and_terminates
         [of paragraphRegexp parseParagraphBlock "js ''P''"
             "\<lparr>m_index = 0, m_text = js ''P'', m_captures = [(1, js ''P'')]\<rparr>"
             "[ParagraphBlock [Text \<lparr>style = Plain, value = Str (js ''P'')\<rparr>]]"]
       parseBlocks_consumes_and_terminates [of _ _ "js '' ''"] a b c d
  show ?thesis by simp
qed

end
